theory Spec2Isabelle
  imports Main "HOL-Library.List_Lexorder" "HOL-Library.Sublist"
begin

section \<open>Python values\<close>

text \<open>
  A Python \<open>str\<close> is a sequence of Unicode code points; it is modelled as a list of
  natural numbers, so that the regular expression classes and the ordering used by
  \<open>sorted\<close> see the same characters as the program does.  \<open>str\<close> turns an Isabelle
  string literal into such a text.
\<close>

type_synonym pystr = "nat list"

abbreviation str :: "string \<Rightarrow> pystr" where
  "str s \<equiv> map (of_char :: char \<Rightarrow> nat) s"

text \<open>
  The exceptions the modelled calls can raise.  All of them are subclasses of Python's
  \<open>Exception\<close>, so an \<open>except Exception\<close> clause catches every value of this type.
  \<open>OSError\<close> and \<open>UnicodeDecodeError\<close> come from \<open>Path.read_text(encoding="utf-8")\<close>,
  \<open>SyntaxError\<close>, \<open>ValueError\<close>, \<open>RecursionError\<close> and \<open>MemoryError\<close> from \<open>ast.parse\<close>,
  \<open>AttributeError\<close> from calling a method on \<open>None\<close>, and the last three from the
  Neo4j driver.
\<close>

datatype py_error =
    OSError | UnicodeDecodeError
  | SyntaxError | ValueError | RecursionError | MemoryError
  | AttributeError
  | ServiceUnavailable | ClientError | DatabaseError

section \<open>The pattern \<open>JS_IMPORT_RE\<close> and its matching\<close>

text \<open>
  Character classes of the pattern: \<open>\s\<close> (Unicode white space, as the pattern is a
  \<open>str\<close> pattern), \<open>.\<close> (anything but a line feed, no \<open>DOTALL\<close> flag), a set \<open>[...]\<close> and a negated
  set \<open>[^...]\<close>.
\<close>

datatype cls = Space | Dot | OneOf pystr | NoneOf pystr

definition is_space :: "nat \<Rightarrow> bool" where
  "is_space c \<longleftrightarrow>
     c \<in> set [9, 10, 11, 12, 13, 28, 29, 30, 31, 32, 133, 160, 5760,
                8232, 8233, 8239, 8287, 12288]
     \<or> (8192 \<le> c \<and> c \<le> 8202)"

fun in_cls :: "cls \<Rightarrow> nat \<Rightarrow> bool" where
  "in_cls Space c = is_space c"
| "in_cls Dot c = (c \<noteq> 10)"
| "in_cls (OneOf cs) c = (c \<in> set cs)"
| "in_cls (NoneOf cs) c = (c \<notin> set cs)"

text \<open>
  The fragment of regular expressions the pattern is written in: literal text, one
  character of a class, a greedy \<open>*\<close> or \<open>+\<close> over a class, sequence, alternation and
  the named group \<open>mod\<close>.
\<close>

datatype re =
    Chars pystr
  | One cls
  | Star cls
  | Plus cls
  | Seq re re
  | Alt re re
  | Group re

text \<open>
  \<open>star c s\<close> lists the inputs left after a greedy repetition of the class, the longest
  repetition first, which is the order in which a backtracking matcher tries them.
\<close>

fun star :: "cls \<Rightarrow> pystr \<Rightarrow> pystr list" where
  "star c [] = [[]]"
| "star c (x # xs) = (if in_cls c x then star c xs @ [x # xs] else [x # xs])"

text \<open>
  \<open>rmatch r s\<close> lists every way \<open>r\<close> matches a prefix of \<open>s\<close>, in the matcher's order
  of preference: each entry is the text captured by the group \<open>mod\<close> (if the group took
  part) and the input left.  The head of the list is the match \<open>re\<close> reports.
\<close>

fun rmatch :: "re \<Rightarrow> pystr \<Rightarrow> (pystr option \<times> pystr) list" where
  "rmatch (Chars cs) s =
     (if take (length cs) s = cs then [(None, drop (length cs) s)] else [])"
| "rmatch (One c) s =
     (case s of [] \<Rightarrow> [] | x # xs \<Rightarrow> if in_cls c x then [(None, xs)] else [])"
| "rmatch (Star c) s = map (Pair None) (star c s)"
| "rmatch (Plus c) s =
     (case s of [] \<Rightarrow> []
      | x # xs \<Rightarrow> if in_cls c x then map (Pair None) (star c xs) else [])"
| "rmatch (Seq r1 r2) s =
     concat (map (\<lambda>(g1, s1).
        map (\<lambda>(g2, s2). (case g2 of None \<Rightarrow> g1 | Some m \<Rightarrow> Some m, s2)) (rmatch r2 s1))
        (rmatch r1 s))"
| "rmatch (Alt r1 r2) s = rmatch r1 s @ rmatch r2 s"
| "rmatch (Group r) s =
     map (\<lambda>(g, s'). (Some (take (length s - length s') s), s')) (rmatch r s)"

text \<open>
  \<open>finditer r 0 s\<close> is \<open>r.finditer(s)\<close>, giving the group \<open>mod\<close> of every match: the
  text is scanned from left to right, the leftmost match is reported, and the scan goes on
  where that match ended.  The first argument counts the characters of the last match
  still to be stepped over.
\<close>

fun finditer :: "re \<Rightarrow> nat \<Rightarrow> pystr \<Rightarrow> pystr option list" where
  "finditer r skip [] =
     (if skip = 0 then (case rmatch r [] of [] \<Rightarrow> [] | (g, rest) # other \<Rightarrow> [g]) else [])"
| "finditer r (Suc k) (x # xs) = finditer r k xs"
| "finditer r 0 (x # xs) =
     (case rmatch r (x # xs) of
        [] \<Rightarrow> finditer r 0 xs
      | (g, rest) # other \<Rightarrow> g # finditer r (length xs - length rest) xs)"

text \<open>
  \<^verbatim>\<open>(?:import\s.+\sfrom\s|require\()\s*['"](?P<mod>[^'"]+)['"]\<close>
  (code points: 39 is the single quote, 34 the double quote).
\<close>

definition quotes :: pystr where
  "quotes = [39, 34]"

definition JS_IMPORT_RE :: re where
  "JS_IMPORT_RE =
     Seq (Alt (Seq (Chars (str ''import''))
              (Seq (One Space)
              (Seq (Plus Dot)
              (Seq (One Space)
              (Seq (Chars (str ''from''))
                   (One Space))))))
              (Chars (str ''require('')))
    (Seq (Star Space)
    (Seq (One (OneOf quotes))
    (Seq (Group (Plus (NoneOf quotes)))
         (One (OneOf quotes)))))"

section \<open>The Module-Reference Extractor\<close>

subsection \<open>JavaScript and TypeScript files\<close>

text \<open>
  The file system is the function \<open>read_text\<close>: the outcome of
  \<open>path.read_text(encoding="utf-8")\<close> for each path, either the decoded text or the
  exception raised (the file cannot be opened, or its bytes are not UTF-8).

  \<open>js_mods\<close> is the loop over the matches: \<open>m.group("mod").split("/")[0]\<close> is the text
  before the first slash (code point 47), \<open>name.startswith(".")\<close> looks at code point 46.
  A match whose group were \<open>None\<close> would raise \<open>AttributeError\<close> at \<open>.split\<close>.
\<close>

definition startswith_dot :: "pystr \<Rightarrow> bool" where
  "startswith_dot name = (case name of [] \<Rightarrow> False | c # cs \<Rightarrow> c = 46)"

fun js_mods :: "pystr option list \<Rightarrow> pystr set \<Rightarrow> py_error + pystr set" where
  "js_mods [] mods = Inr mods"
| "js_mods (None # ms) mods = Inl AttributeError"
| "js_mods (Some g # ms) mods =
     (let name = takeWhile (\<lambda>c. c \<noteq> 47) g
      in js_mods ms (if \<not> startswith_dot name then insert name mods else mods))"

definition extract_js_imports ::
  "(pystr \<Rightarrow> py_error + pystr) \<Rightarrow> pystr \<Rightarrow> py_error + pystr set" where
  "extract_js_imports read_text js_path =
     (case read_text js_path of
        Inl e \<Rightarrow> Inl e
      | Inr txt \<Rightarrow> js_mods (finditer JS_IMPORT_RE 0 txt) {})"

subsection \<open>Python files\<close>

text \<open>
  The syntax tree \<open>ast.parse\<close> returns, as far as the extractor looks at it: \<open>Import\<close>
  nodes with their aliases, \<open>ImportFrom\<close> nodes with their module (absent for
  \<open>from . import x\<close>), aliases and level, the alias nodes themselves, and every other
  node as its class name and its child nodes.
\<close>

datatype import_alias = Alias (alias_name: pystr) (asname: "pystr option")

datatype ast =
    Import "import_alias list"
  | ImportFrom "pystr option" "import_alias list" nat
  | AliasNode import_alias
  | Node string "ast list"

fun iter_child_nodes :: "ast \<Rightarrow> ast list" where
  "iter_child_nodes (Import names) = map AliasNode names"
| "iter_child_nodes (ImportFrom m names lvl) = map AliasNode names"
| "iter_child_nodes (AliasNode a) = []"
| "iter_child_nodes (Node c children) = children"

text \<open>
  \<open>ast.walk\<close>: a queue that starts with the root; each node taken from the front is
  yielded and its children are put at the back.  The loop ends because the number of
  nodes in and below the queue, counted by \<open>weight\<close>, goes down at every step.
\<close>

fun weight :: "ast \<Rightarrow> nat" where
  "weight (Import names) = Suc (length names)"
| "weight (ImportFrom m names lvl) = Suc (length names)"
| "weight (AliasNode a) = 1"
| "weight (Node c children) = Suc (sum_list (map weight children))"

function walk :: "ast list \<Rightarrow> ast list" where
  "walk [] = []"
| "walk (node # todo) = node # walk (todo @ iter_child_nodes node)"
  by pat_completeness auto
termination
proof (relation "measure (\<lambda>todo. sum_list (map weight todo))")
  show "wf (measure (\<lambda>todo. sum_list (map weight todo)))" by simp
next
  fix node :: ast and todo :: "ast list"
  have aliases: "sum_list (map weight (map AliasNode names)) = length names" for names
    by (induction names) simp_all
  have "sum_list (map weight (iter_child_nodes node)) < weight node"
    by (cases node) (simp_all add: aliases del: map_map)
  then show "(todo @ iter_child_nodes node, node # todo)
               \<in> measure (\<lambda>todo. sum_list (map weight todo))"
    by simp
qed

text \<open>
  The body of the loop over the walked nodes.  \<open>name.split(".")[0]\<close> is the text before
  the first dot; \<open>node.module\<close> is false when it is \<open>None\<close> or the empty string.
\<close>

definition first_dotted :: "pystr \<Rightarrow> pystr" where
  "first_dotted name = takeWhile (\<lambda>c. c \<noteq> 46) name"

fun visit :: "ast \<Rightarrow> pystr set \<Rightarrow> pystr set" where
  "visit (Import names) mods = fold (\<lambda>a. insert (first_dotted (alias_name a))) names mods"
| "visit (ImportFrom m names lvl) mods =
     (case m of
        None \<Rightarrow> mods
      | Some name \<Rightarrow> if name = [] then mods else insert (first_dotted name) mods)"
| "visit (AliasNode a) mods = mods"
| "visit (Node c children) mods = mods"

text \<open>
  \<open>parse\<close> is \<open>ast.parse\<close>: the tree of a source text, or the exception raised for a
  text that is no Python program.  Reading and parsing are inside the \<open>try\<close>, whose
  \<open>except Exception\<close> returns the empty set.
\<close>

definition extract_python_imports ::
  "(pystr \<Rightarrow> py_error + pystr) \<Rightarrow> (pystr \<Rightarrow> py_error + ast) \<Rightarrow> pystr
     \<Rightarrow> py_error + pystr set" where
  "extract_python_imports read_text parse py_path =
     (case read_text py_path of
        Inl e \<Rightarrow> Inr {}
      | Inr src \<Rightarrow>
          (case parse src of
             Inl e \<Rightarrow> Inr {}
           | Inr tree \<Rightarrow> Inr (fold visit (walk [tree]) {})))"

subsection \<open>The Language Dispatcher\<close>

text \<open>
  \<open>Path.suffix\<close>: the final component of the path (after the last slash), from its
  last dot on, when that dot is neither the first nor the last character of the
  component; the empty string otherwise.
\<close>

definition path_name :: "pystr \<Rightarrow> pystr" where
  "path_name p = rev (takeWhile (\<lambda>c. c \<noteq> 47) (rev p))"

definition path_suffix :: "pystr \<Rightarrow> pystr" where
  "path_suffix p =
     (let name = path_name p;
          i = length name - Suc (length (takeWhile (\<lambda>c. c \<noteq> 46) (rev name)))
      in if 46 \<in> set name \<and> 0 < i \<and> Suc i < length name then drop i name else [])"

definition extract_imports ::
  "(pystr \<Rightarrow> py_error + pystr) \<Rightarrow> (pystr \<Rightarrow> py_error + ast) \<Rightarrow> pystr
     \<Rightarrow> py_error + pystr set" where
  "extract_imports read_text parse file_path =
     (if path_suffix file_path \<in> {str ''.py''} then extract_python_imports read_text parse file_path
      else if path_suffix file_path \<in> {str ''.js'', str ''.ts''} then extract_js_imports read_text file_path
      else Inr {})"

section \<open>The Graph Builder\<close>

subsection \<open>The graph store\<close>

text \<open>
  The part of the Neo4j store the program reads and writes: the uniqueness
  constraints, the nodes labelled \<open>File\<close> (with their \<open>path\<close>) and \<open>Module\<close> (with their
  \<open>name\<close>), and the \<open>IMPORTS\<close> relationships.  A node is identified by its position in
  the list of nodes, and a relationship is the pair of the positions of its start and end
  node, so a store can hold two nodes with the same label and property and two
  relationships between the same nodes.
\<close>

datatype label = File | Module

type_synonym node = "label \<times> pystr"

record graph =
  constraints :: "label list"
  nodes :: "node list"
  rels :: "(nat \<times> nat) list"

definition empty_graph :: graph where
  "empty_graph = \<lparr>constraints = [], nodes = [], rels = []\<rparr>"

text \<open>The three Cypher statements of \<open>build_graph\<close>, with their parameters.\<close>

datatype query =
    CreateConstraint label
  | MergeFile pystr
  | MergeImport pystr pystr

text \<open>
  \<open>MERGE (n:L {key: k})\<close> binds \<open>n\<close> to every node with that label and property; when
  there is none it creates one and binds \<open>n\<close> to it.
\<close>

definition match_nodes :: "label \<Rightarrow> pystr \<Rightarrow> graph \<Rightarrow> nat list" where
  "match_nodes l k g = filter (\<lambda>i. nodes g ! i = (l, k)) [0..<length (nodes g)]"

definition merge_node :: "label \<Rightarrow> pystr \<Rightarrow> graph \<Rightarrow> nat list \<times> graph" where
  "merge_node l k g =
     (let found = match_nodes l k g
      in if found = [] then ([length (nodes g)], g\<lparr>nodes := nodes g @ [(l, k)]\<rparr>)
         else (found, g))"

text \<open>
  \<open>MERGE (f)-[:IMPORTS]->(m)\<close> for bound \<open>f\<close> and \<open>m\<close>: the relationship is created
  unless there is one already.
\<close>

definition merge_rel :: "nat \<times> nat \<Rightarrow> graph \<Rightarrow> graph" where
  "merge_rel r g = (if r \<in> set (rels g) then g else g\<lparr>rels := rels g @ [r]\<rparr>)"

definition keys :: "label \<Rightarrow> graph \<Rightarrow> pystr list" where
  "keys l g = map snd (filter (\<lambda>n. fst n = l) (nodes g))"

text \<open>
  One statement, run as one transaction on the store.
  \<open>CREATE CONSTRAINT IF NOT EXISTS ... IS UNIQUE\<close> does nothing when the constraint exists,
  and is refused when the nodes already in the store break it.  The third statement
  merges the module node, then the file node, then a relationship for every pair of
  bound nodes.
\<close>

fun exec :: "query \<Rightarrow> graph \<Rightarrow> py_error + graph" where
  "exec (CreateConstraint l) g =
     (if l \<in> set (constraints g) then Inr g
      else if distinct (keys l g) then Inr (g\<lparr>constraints := constraints g @ [l]\<rparr>)
      else Inl DatabaseError)"
| "exec (MergeFile path) g = Inr (snd (merge_node File path g))"
| "exec (MergeImport name path) g =
     (let (ms, g1) = merge_node Module name g;
          (fs, g2) = merge_node File path g1
      in Inr (fold merge_rel (concat (map (\<lambda>m. map (\<lambda>f. (f, m)) fs) ms)) g2))"

subsection \<open>The session\<close>

text \<open>
  A session holds the store, the outcome the connection has in stock for each coming
  call of \<open>sess.run\<close> (\<open>None\<close>: the statement reaches the store; \<open>Some e\<close>: the call
  raises \<open>e\<close> and writes nothing; past the end of the list every call reaches the
  store), and the statements issued so far.
\<close>

record session =
  db :: graph
  faults :: "py_error option list"
  log :: "query list"

definition next_fault :: "session \<Rightarrow> py_error option" where
  "next_fault s = (case faults s of [] \<Rightarrow> None | f # fs \<Rightarrow> f)"

definition run :: "query \<Rightarrow> session \<Rightarrow> py_error option \<times> session" where
  "run q s =
     (let s' = s\<lparr>faults := tl (faults s), log := log s @ [q]\<rparr>
      in case next_fault s of
           Some e \<Rightarrow> (Some e, s')
         | None \<Rightarrow>
             (case exec q (db s) of
                Inl e \<Rightarrow> (Some e, s')
              | Inr g \<Rightarrow> (None, s'\<lparr>db := g\<rparr>)))"

subsection \<open>\<open>build_graph\<close>\<close>

text \<open>
  The result is the exception that left \<open>build_graph\<close>, if any, and the session as the
  call leaves it.  \<open>merge_imports\<close> is the loop over \<open>sorted(imports)\<close>.
\<close>

fun merge_imports :: "session \<Rightarrow> pystr \<Rightarrow> pystr list \<Rightarrow> py_error option \<times> session" where
  "merge_imports s file_node [] = (None, s)"
| "merge_imports s file_node (name # mods) =
     (case run (MergeImport name file_node) s of
        (Some e, s') \<Rightarrow> (Some e, s')
      | (None, s') \<Rightarrow> merge_imports s' file_node mods)"

definition build_graph :: "session \<Rightarrow> pystr \<Rightarrow> pystr set \<Rightarrow> py_error option \<times> session" where
  "build_graph s file_node imports =
     (case run (CreateConstraint File) s of
        (Some e, s1) \<Rightarrow> (Some e, s1)
      | (None, s1) \<Rightarrow>
     (case run (CreateConstraint Module) s1 of
        (Some e, s2) \<Rightarrow> (Some e, s2)
      | (None, s2) \<Rightarrow>
     (case run (MergeFile file_node) s2 of
        (Some e, s3) \<Rightarrow> (Some e, s3)
      | (None, s3) \<Rightarrow> merge_imports s3 file_node (sorted_list_of_set imports))))"

subsection \<open>The walk over the code files\<close>

text \<open>
  The loop of \<open>main\<close> over the files of the clone, given as their paths relative to it:
  a file with one of the three suffixes is extracted and written to the graph; an
  exception ends the loop.
\<close>

fun scan_files ::
  "(pystr \<Rightarrow> py_error + pystr) \<Rightarrow> (pystr \<Rightarrow> py_error + ast) \<Rightarrow> session \<Rightarrow> pystr list
     \<Rightarrow> py_error option \<times> session" where
  "scan_files read_text parse s [] = (None, s)"
| "scan_files read_text parse s (path # paths) =
     (if path_suffix path \<in> {str ''.py'', str ''.js'', str ''.ts''} then
        (case extract_imports read_text parse path of
           Inl e \<Rightarrow> (Some e, s)
         | Inr imps \<Rightarrow>
             (case build_graph s path imps of
                (Some e, s') \<Rightarrow> (Some e, s')
              | (None, s') \<Rightarrow> scan_files read_text parse s' paths))
      else scan_files read_text parse s paths)"

section \<open>Notions used to state the properties\<close>

text \<open>
  \<open>occurs_in tree n\<close>: the node \<open>n\<close> is the root of the syntax tree or lies below it, at
  any depth.
\<close>

inductive occurs_in :: "ast \<Rightarrow> ast \<Rightarrow> bool" where
  root: "occurs_in tree tree"
| child: "c \<in> set (iter_child_nodes tree) \<Longrightarrow> occurs_in c n \<Longrightarrow> occurs_in tree n"

text \<open>A pattern all of whose matches have taken part in the group \<open>mod\<close>.\<close>

definition always_grouped :: "re \<Rightarrow> bool" where
  "always_grouped r \<longleftrightarrow> (\<forall>s g rest. (g, rest) \<in> set (rmatch r s) \<longrightarrow> g \<noteq> None)"

text \<open>
  The two halves of \<open>JS_IMPORT_RE\<close>: the pattern of the words up to \<open>from\<close>, and the
  pattern of the quoted module string; the number of quote characters of a text; and
  the matches of a pattern tried after each match of the pattern before it.
\<close>

definition qcount :: "pystr \<Rightarrow> nat" where
  "qcount s = length (filter (\<lambda>c. c \<in> set quotes) s)"

definition module_part :: re where
  "module_part =
     Seq (Star Space)
    (Seq (One (OneOf quotes))
    (Seq (Group (Plus (NoneOf quotes)))
         (One (OneOf quotes))))"

definition import_part :: re where
  "import_part =
     Seq (Chars (str ''import''))
    (Seq (One Space)
    (Seq (Plus Dot)
    (Seq (One Space)
    (Seq (Chars (str ''from''))
         (One Space)))))"

definition then_match :: "re \<Rightarrow> (pystr option \<times> pystr) list \<Rightarrow> (pystr option \<times> pystr) list" where
  "then_match r2 rs =
     concat (map (\<lambda>(g1, s1).
        map (\<lambda>(g2, s2). (case g2 of None \<Rightarrow> g1 | Some m \<Rightarrow> Some m, s2)) (rmatch r2 s1)) rs)"

text \<open>
  The invariants of the graph: no two \<open>File\<close> nodes with the same path, no two
  \<open>Module\<close> nodes with the same name, no two \<open>IMPORTS\<close> relationships between the same
  pair of nodes.
\<close>

definition graph_inv :: "graph \<Rightarrow> bool" where
  "graph_inv g \<longleftrightarrow> distinct (keys File g) \<and> distinct (keys Module g) \<and> distinct (rels g)"

text \<open>
  The \<open>IMPORTS\<close> relationships from a node of the file \<open>path\<close> to a node of the
  module \<open>name\<close>.
\<close>

definition imports_edges :: "graph \<Rightarrow> pystr \<Rightarrow> pystr \<Rightarrow> (nat \<times> nat) list" where
  "imports_edges g path name =
     filter (\<lambda>(f, m). f \<in> set (match_nodes File path g) \<and> m \<in> set (match_nodes Module name g))
       (rels g)"

text \<open>
  \<open>linked g path name\<close>: the file and the module are in the store, and every node
  for the file has a relationship to every node for the module.  \<open>established q g\<close>:
  the store already holds what the statement \<open>q\<close> asks for.
\<close>

definition linked :: "graph \<Rightarrow> pystr \<Rightarrow> pystr \<Rightarrow> bool" where
  "linked g path name \<longleftrightarrow>
     (File, path) \<in> set (nodes g) \<and> (Module, name) \<in> set (nodes g) \<and>
     set (match_nodes File path g) \<times> set (match_nodes Module name g) \<subseteq> set (rels g)"

fun established :: "query \<Rightarrow> graph \<Rightarrow> bool" where
  "established (CreateConstraint l) g = (l \<in> set (constraints g))"
| "established (MergeFile path) g = ((File, path) \<in> set (nodes g))"
| "established (MergeImport name path) g = linked g path name"

text \<open>
  A list of statements run one after the other until one raises, and the list of
  statements one call of \<open>build_graph\<close> goes through.
\<close>

fun run_all :: "session \<Rightarrow> query list \<Rightarrow> py_error option \<times> session" where
  "run_all s [] = (None, s)"
| "run_all s (q # qs) =
     (case run q s of
        (Some e, s') \<Rightarrow> (Some e, s')
      | (None, s') \<Rightarrow> run_all s' qs)"

definition batch :: "pystr \<Rightarrow> pystr set \<Rightarrow> query list" where
  "batch file_node imports =
     [CreateConstraint File, CreateConstraint Module, MergeFile file_node]
     @ map (\<lambda>name. MergeImport name file_node) (sorted_list_of_set imports)"

text \<open>
  The stores that calls of \<open>build_graph\<close> lead to from a store \<open>g0\<close>, whatever the
  files, the module sets and the outcomes of the calls.
\<close>

inductive reachable :: "graph \<Rightarrow> graph \<Rightarrow> bool" for g0 :: graph where
  start: "reachable g0 g0"
| call: "reachable g0 (db s) \<Longrightarrow> build_graph s file_node imports = (r, s')
           \<Longrightarrow> reachable g0 (db s')"

section \<open>Properties of the extractors\<close>

subsection \<open>The matches of the pattern\<close>

lemma always_grouped_Group: "always_grouped (Group r)"
  by (auto simp: always_grouped_def)

lemma always_grouped_Seq1:
  assumes "always_grouped r1"
  shows "always_grouped (Seq r1 r2)"
  unfolding always_grouped_def
proof (intro allI impI)
  fix s g rest
  assume "(g, rest) \<in> set (rmatch (Seq r1 r2) s)"
  then obtain g1 s1 g2 where "(g1, s1) \<in> set (rmatch r1 s)"
    and g: "g = (case g2 of None \<Rightarrow> g1 | Some m \<Rightarrow> Some m)"
    by auto
  with assms have "g1 \<noteq> None" by (auto simp: always_grouped_def)
  with g show "g \<noteq> None" by (cases g2) simp_all
qed

lemma always_grouped_Seq2:
  assumes "always_grouped r2"
  shows "always_grouped (Seq r1 r2)"
  unfolding always_grouped_def
proof (intro allI impI)
  fix s g rest
  assume "(g, rest) \<in> set (rmatch (Seq r1 r2) s)"
  then obtain g1 s1 g2 where "(g2, rest) \<in> set (rmatch r2 s1)"
    and g: "g = (case g2 of None \<Rightarrow> g1 | Some m \<Rightarrow> Some m)"
    by auto
  with assms have "g2 \<noteq> None" by (auto simp: always_grouped_def)
  with g show "g \<noteq> None" by (cases g2) simp_all
qed

lemma always_grouped_JS_IMPORT_RE: "always_grouped JS_IMPORT_RE"
  unfolding JS_IMPORT_RE_def
  by (intro always_grouped_Seq2 always_grouped_Seq1 always_grouped_Group)

lemma finditer_grouped: "always_grouped r \<Longrightarrow> None \<notin> set (finditer r k s)"
proof (induction r k s rule: finditer.induct)
  case (1 r skip)
  show ?case
  proof (cases "rmatch r []")
    case Nil
    then have "finditer r skip [] = []" by simp
    then show ?thesis by simp
  next
    case (Cons a other)
    obtain g rest where a: "a = (g, rest)" by (cases a)
    with Cons have "(g, rest) \<in> set (rmatch r [])" by simp
    with 1 have g: "g \<noteq> None" by (auto simp: always_grouped_def)
    from Cons a have "finditer r skip [] = (if skip = 0 then [g] else [])" by simp
    with g show ?thesis by auto
  qed
next
  case (2 r k x xs)
  then show ?case by simp
next
  case (3 r x xs)
  show ?case
  proof (cases "rmatch r (x # xs)")
    case Nil
    then have "finditer r 0 (x # xs) = finditer r 0 xs" by simp
    with 3(1) [OF Nil 3(3)] show ?thesis by simp
  next
    case (Cons a other)
    obtain g rest where a: "a = (g, rest)" by (cases a)
    with Cons have "(g, rest) \<in> set (rmatch r (x # xs))" by simp
    with 3(3) have g: "g \<noteq> None" by (auto simp: always_grouped_def)
    from Cons a have "finditer r 0 (x # xs) = g # finditer r (length xs - length rest) xs"
      by simp
    with g 3(2) [OF Cons a [symmetric] 3(3)] show ?thesis by auto
  qed
qed

lemma startswith_dot_segment:
  "startswith_dot (takeWhile (\<lambda>c. c \<noteq> 47) m) = startswith_dot m"
  by (cases m) (simp_all add: startswith_dot_def)

lemma js_mods_grouped:
  assumes "None \<notin> set gs"
  shows "js_mods gs mods =
     Inr (mods \<union> {takeWhile (\<lambda>c. c \<noteq> 47) m | m. Some m \<in> set gs \<and> \<not> startswith_dot m})"
  using assms
proof (induction gs arbitrary: mods)
  case Nil
  then show ?case by simp
next
  case (Cons g gs)
  then obtain m where g: "g = Some m" by (cases g) auto
  from Cons have "js_mods gs mods' =
     Inr (mods' \<union> {takeWhile (\<lambda>c. c \<noteq> 47) m | m. Some m \<in> set gs \<and> \<not> startswith_dot m})"
    for mods' by simp
  then show ?case
    by (auto simp: g Let_def startswith_dot_segment)
qed

lemma js_mods_single:
  "js_mods [Some M] {} =
     Inr (if startswith_dot M then {} else {takeWhile (\<lambda>c. c \<noteq> 47) M})"
  by (simp add: startswith_dot_segment)

lemma extract_js_imports_eq:
  assumes "read_text js_path = Inr txt"
  shows "extract_js_imports read_text js_path =
     Inr {takeWhile (\<lambda>c. c \<noteq> 47) m | m.
            Some m \<in> set (finditer JS_IMPORT_RE 0 txt) \<and> \<not> startswith_dot m}"
  using assms
  by (simp add: extract_js_imports_def
      js_mods_grouped [OF finditer_grouped [OF always_grouped_JS_IMPORT_RE]])

subsection \<open>The two forms of an import\<close>

lemma JS_IMPORT_RE_parts:
  "JS_IMPORT_RE = Seq (Alt import_part (Chars (str ''require(''))) module_part"
  by (simp add: JS_IMPORT_RE_def import_part_def module_part_def)

lemma rmatch_Seq: "rmatch (Seq r1 r2) s = then_match r2 (rmatch r1 s)"
  by (simp add: then_match_def)

lemma then_match_Nil [simp]: "then_match r2 [] = []"
  by (simp add: then_match_def)

lemma then_match_append [simp]: "then_match r2 (a @ b) = then_match r2 a @ then_match r2 b"
  by (simp add: then_match_def)

lemma then_match_Cons:
  "then_match r2 ((g1, s1) # rs) =
     map (\<lambda>(g2, s2). (case g2 of None \<Rightarrow> g1 | Some m \<Rightarrow> Some m, s2)) (rmatch r2 s1)
     @ then_match r2 rs"
  by (simp add: then_match_def)

lemma then_match_fail:
  "\<forall>(g1, s1) \<in> set rs. rmatch r2 s1 = [] \<Longrightarrow> then_match r2 rs = []"
  by (induction rs) (auto simp: then_match_Cons)

lemma then_match_set:
  "(g, s') \<in> set (then_match r2 rs) \<Longrightarrow>
     \<exists>g1 s1 g2. (g1, s1) \<in> set rs \<and> (g2, s') \<in> set (rmatch r2 s1)"
  by (auto simp: then_match_def)

lemma Seq_head:
  assumes "rmatch r1 s = (g1, s1) # more1" and "rmatch r2 s1 = (g2, s2) # more2"
  shows "\<exists>others. rmatch (Seq r1 r2) s = (case g2 of None \<Rightarrow> g1 | Some m \<Rightarrow> Some m, s2) # others"
  using assms by (simp add: rmatch_Seq then_match_Cons del: rmatch.simps)

lemma star_suffix: "t \<in> set (star c s) \<Longrightarrow> suffix t s"
  by (induction s) (auto simp: suffix_Cons split: if_splits)

lemma star_last: "\<exists>front. star c s = front @ [s] \<and> (\<forall>t \<in> set front. strict_suffix t s)"
proof (induction s)
  case Nil
  show ?case by simp
next
  case (Cons x xs)
  then obtain front where f: "star c xs = front @ [xs]" "\<forall>t \<in> set front. strict_suffix t xs"
    by blast
  show ?case
  proof (cases "in_cls c x")
    case True
    have "strict_suffix t (x # xs)" if "suffix t xs" for t
      using that suffix_length_le [of t xs] by (auto simp: strict_suffix_def suffix_Cons)
    then have "\<forall>t \<in> set (front @ [xs]). strict_suffix t (x # xs)"
      using f(2) by (auto simp: strict_suffix_def)
    with True f(1) show ?thesis by (intro exI [of _ "front @ [xs]"]) simp
  next
    case False
    then show ?thesis by (intro exI [of _ "[]"]) simp
  qed
qed

lemma star_through:
  "\<forall>x \<in> set pre. in_cls c x \<Longrightarrow> \<exists>others. star c (pre @ rest) = star c rest @ others"
  by (induction pre) auto

lemma star_all:
  assumes "\<forall>x \<in> set pre. in_cls c x" and "rest = [] \<or> \<not> in_cls c (hd rest)"
  shows "\<exists>others. star c (pre @ rest) = rest # others"
proof -
  from assms(2) have "star c rest = [rest]" by (cases rest) auto
  with star_through [OF assms(1), of rest] show ?thesis by auto
qed

lemma rmatch_suffix: "(g, s') \<in> set (rmatch r s) \<Longrightarrow> suffix s' s"
proof (induction r arbitrary: g s' s)
  case (Chars cs)
  then show ?case by (auto simp: suffix_drop split: if_splits)
next
  case (One c)
  then show ?case by (auto simp: suffix_Cons split: list.splits if_splits)
next
  case (Star c)
  then show ?case by (auto dest: star_suffix)
next
  case (Plus c)
  then show ?case by (auto simp: suffix_Cons dest: star_suffix split: list.splits if_splits)
next
  case (Seq r1 r2)
  from Seq.prems obtain g1 s1 g2 where "(g1, s1) \<in> set (rmatch r1 s)"
    "(g2, s') \<in> set (rmatch r2 s1)"
    by auto
  with Seq.IH show ?case by (blast intro: suffix_order.trans)
next
  case (Alt r1 r2)
  then show ?case by auto
next
  case (Group r)
  then show ?case by auto
qed

lemma qcount_suffix: "suffix t s \<Longrightarrow> qcount t \<le> qcount s"
  by (auto simp: suffix_def qcount_def)

lemma qcount_free: "set s \<inter> set quotes = {} \<Longrightarrow> qcount s = 0"
  by (auto simp: qcount_def filter_empty_conv)

lemma module_part_two_quotes:
  assumes "rmatch module_part s \<noteq> []"
  shows "2 \<le> qcount s"
proof -
  let ?tail = "Seq (Group (Plus (NoneOf quotes))) (One (OneOf quotes))"
  from assms obtain g rest where "(g, rest) \<in> set (rmatch module_part s)"
    by (cases "rmatch module_part s") auto
  then have "(g, rest) \<in> set (then_match (Seq (One (OneOf quotes)) ?tail) (rmatch (Star Space) s))"
    by (simp only: module_part_def rmatch_Seq)
  then obtain g1 s1 g2 where s1: "(g1, s1) \<in> set (rmatch (Star Space) s)"
    and a: "(g2, rest) \<in> set (rmatch (Seq (One (OneOf quotes)) ?tail) s1)"
    by (blast dest: then_match_set)
  from a have "(g2, rest) \<in> set (then_match ?tail (rmatch (One (OneOf quotes)) s1))"
    by (simp only: rmatch_Seq)
  then obtain g3 s2 g4 where s2: "(g3, s2) \<in> set (rmatch (One (OneOf quotes)) s1)"
    and b: "(g4, rest) \<in> set (rmatch ?tail s2)"
    by (blast dest: then_match_set)
  from b have "(g4, rest) \<in> set (then_match (One (OneOf quotes))
      (rmatch (Group (Plus (NoneOf quotes))) s2))"
    by (simp only: rmatch_Seq)
  then obtain g5 s3 g6 where s3: "(g5, s3) \<in> set (rmatch (Group (Plus (NoneOf quotes))) s2)"
    and c: "(g6, rest) \<in> set (rmatch (One (OneOf quotes)) s3)"
    by (blast dest: then_match_set)
  from s2 obtain q where q: "s1 = q # s2" "q \<in> set quotes"
    by (auto split: list.splits if_splits)
  from c obtain q' where q': "s3 = q' # rest" "q' \<in> set quotes"
    by (auto split: list.splits if_splits)
  from s3 have "suffix s3 s2" by (rule rmatch_suffix)
  then have "qcount s3 \<le> qcount s2" by (rule qcount_suffix)
  moreover from q' have "1 \<le> qcount s3" by (simp add: qcount_def)
  moreover from q have "qcount s1 = Suc (qcount s2)" by (simp add: qcount_def)
  moreover from s1 have "qcount s1 \<le> qcount s" by (intro qcount_suffix rmatch_suffix)
  ultimately show ?thesis by simp
qed

lemma not_space_quote: "q \<in> set quotes \<Longrightarrow> \<not> is_space q"
  by (auto simp: quotes_def is_space_def)

lemma module_part_head:
  assumes ws: "\<forall>w \<in> set ws. is_space w"
    and q: "q1 \<in> set quotes" "q2 \<in> set quotes"
    and M: "M \<noteq> []" "set M \<inter> set quotes = {}"
  shows "\<exists>others. rmatch module_part (ws @ q1 # M @ q2 # tail) = (Some M, tail) # others"
proof -
  from ws q(1) obtain more1 where
    "star Space (ws @ q1 # M @ q2 # tail) = (q1 # M @ q2 # tail) # more1"
    using star_all [of ws Space "q1 # M @ q2 # tail"] by (auto simp: not_space_quote)
  then have spaces: "rmatch (Star Space) (ws @ q1 # M @ q2 # tail)
      = (None, q1 # M @ q2 # tail) # map (Pair None) more1"
    by simp
  from q(1) have open_q: "rmatch (One (OneOf quotes)) (q1 # M @ q2 # tail)
      = (None, M @ q2 # tail) # []"
    by simp
  from M obtain m M' where m: "M = m # M'" by (cases M) auto
  with M(2) q(2) obtain more2 where
    st2: "star (NoneOf quotes) (M' @ q2 # tail) = (q2 # tail) # more2"
    using star_all [of M' "NoneOf quotes" "q2 # tail"] by auto
  have "rmatch (Plus (NoneOf quotes)) (m # M' @ q2 # tail)
      = (None, q2 # tail) # map (Pair None) more2"
    using M(2) st2 by (simp add: m)
  then have "\<exists>others. rmatch (Group (Plus (NoneOf quotes))) (M @ q2 # tail)
      = (Some M, q2 # tail) # others"
    by (simp add: m del: rmatch.simps(4))
  then obtain more3 where name: "rmatch (Group (Plus (NoneOf quotes))) (M @ q2 # tail)
      = (Some M, q2 # tail) # more3"
    by blast
  from q(2) have close_q: "rmatch (One (OneOf quotes)) (q2 # tail) = (None, tail) # []"
    by simp
  from Seq_head [OF name close_q] obtain more4 where
    "rmatch (Seq (Group (Plus (NoneOf quotes))) (One (OneOf quotes))) (M @ q2 # tail)
      = (Some M, tail) # more4"
    by auto
  from Seq_head [OF open_q this] obtain more5 where
    "rmatch (Seq (One (OneOf quotes))
        (Seq (Group (Plus (NoneOf quotes))) (One (OneOf quotes)))) (q1 # M @ q2 # tail)
      = (Some M, tail) # more5"
    by auto
  from Seq_head [OF spaces this] show ?thesis
    by (auto simp: module_part_def)
qed


lemma then_match_single: "then_match r [(None, s1)] = rmatch r s1"
proof -
  have "map (\<lambda>(g2, s2). (case g2 of None \<Rightarrow> None | Some m \<Rightarrow> Some m, s2)) rs = rs"
    for rs :: "(pystr option \<times> pystr) list"
    by (induction rs) (auto split: option.splits)
  then show ?thesis by (simp add: then_match_Cons)
qed

lemma then_match_Cons_None:
  "then_match r ((None, s1) # rs) = rmatch r s1 @ then_match r rs"
  using then_match_append [of r "[(None, s1)]" rs]
  by (simp only: then_match_single append_Cons append_Nil)

lemma JS_IMPORT_RE_two_quotes:
  assumes "rmatch JS_IMPORT_RE s \<noteq> []"
  shows "2 \<le> qcount s"
proof -
  from assms obtain g rest where "(g, rest) \<in> set (rmatch JS_IMPORT_RE s)"
    by (cases "rmatch JS_IMPORT_RE s") auto
  then have "(g, rest) \<in> set (then_match module_part
      (rmatch (Alt import_part (Chars (str ''require(''))) s))"
    by (simp only: JS_IMPORT_RE_parts rmatch_Seq)
  then obtain g1 s1 g2 where
    s1: "(g1, s1) \<in> set (rmatch (Alt import_part (Chars (str ''require(''))) s)"
    and "(g2, rest) \<in> set (rmatch module_part s1)"
    by (blast dest: then_match_set)
  then have "rmatch module_part s1 \<noteq> []" by auto
  then have "2 \<le> qcount s1" by (rule module_part_two_quotes)
  moreover from s1 have "qcount s1 \<le> qcount s" by (intro qcount_suffix rmatch_suffix)
  ultimately show ?thesis by simp
qed

lemma finditer_no_match: "qcount s \<le> 1 \<Longrightarrow> finditer JS_IMPORT_RE k s = []"
proof (induction s arbitrary: k)
  case Nil
  have "rmatch JS_IMPORT_RE [] = []"
    using JS_IMPORT_RE_two_quotes [of "[]"] by (auto simp: qcount_def)
  then show ?case by simp
next
  case (Cons x xs)
  then have xs: "qcount xs \<le> 1" by (simp add: qcount_def split: if_splits)
  show ?case
  proof (cases k)
    case 0
    have "rmatch JS_IMPORT_RE (x # xs) = []"
      using JS_IMPORT_RE_two_quotes [of "x # xs"] Cons.prems by auto
    with 0 Cons.IH [OF xs] show ?thesis by simp
  next
    case (Suc j)
    with Cons.IH [OF xs] show ?thesis by simp
  qed
qed

lemma finditer_skip: "finditer r (length pre) (pre @ s) = finditer r 0 s"
  by (induction pre) simp_all

lemma finditer_single:
  assumes "rmatch JS_IMPORT_RE (c # mid @ tail) = (Some M, tail) # others"
    and "set tail \<inter> set quotes = {}"
  shows "finditer JS_IMPORT_RE 0 (c # mid @ tail) = [Some M]"
proof -
  from assms(1) have "finditer JS_IMPORT_RE 0 (c # mid @ tail)
      = Some M # finditer JS_IMPORT_RE (length mid) (mid @ tail)"
    by simp
  also have "finditer JS_IMPORT_RE (length mid) (mid @ tail) = finditer JS_IMPORT_RE 0 tail"
    by (rule finditer_skip)
  also have "\<dots> = []"
    using assms(2) by (intro finditer_no_match) (simp add: qcount_free)
  finally show ?thesis .
qed

lemma from_part_strict_suffix:
  assumes t: "strict_suffix t (w2 # str ''from'' @ w3 # q1 # M @ q2 # tail)"
    and w3: "is_space w3" and q: "q1 \<in> set quotes" "q2 \<in> set quotes"
    and M: "set M \<inter> set quotes = {}" and tail: "set tail \<inter> set quotes = {}"
    and res: "(g, s1) \<in> set (rmatch (Seq (One Space) (Seq (Chars (str ''from'')) (One Space))) t)"
  shows "qcount s1 \<le> 1"
proof -
  from q(1) have q1: "q1 \<noteq> 102" "\<not> is_space q1"
    by (auto simp: quotes_def is_space_def)
  have letters: "\<not> is_space 102" "\<not> is_space 114" "\<not> is_space 111" "\<not> is_space 109"
    by (simp_all add: is_space_def)
  from t have "suffix t (str ''from'' @ w3 # q1 # M @ q2 # tail)"
    by (auto simp: strict_suffix_def suffix_Cons)
  then consider "t = str ''from'' @ w3 # q1 # M @ q2 # tail"
    | "t = str ''rom'' @ w3 # q1 # M @ q2 # tail"
    | "t = str ''om'' @ w3 # q1 # M @ q2 # tail"
    | "t = str ''m'' @ w3 # q1 # M @ q2 # tail"
    | "t = w3 # q1 # M @ q2 # tail"
    | "t = q1 # M @ q2 # tail"
    | "suffix t (M @ q2 # tail)"
    by (auto simp: suffix_Cons)
  then show ?thesis
  proof cases
    case 7
    from res have "suffix s1 t" by (rule rmatch_suffix)
    then have "suffix s1 (M @ q2 # tail)" using 7 by (rule suffix_order.trans)
    then have "qcount s1 \<le> qcount (M @ q2 # tail)" by (rule qcount_suffix)
    also have "\<dots> = 1"
      using M tail q(2) qcount_free [of M] qcount_free [of tail] by (simp add: qcount_def)
    finally show ?thesis .
  qed (use res q1 letters in \<open>simp_all\<close>)
qed


lemma import_part_results:
  assumes sp: "is_space w1" "is_space w2" "is_space w3"
    and B: "B \<noteq> []" "10 \<notin> set B"
    and q: "q1 \<in> set quotes" "q2 \<in> set quotes"
    and M: "set M \<inter> set quotes = {}" and tail: "set tail \<inter> set quotes = {}"
  shows "\<exists>pre post.
      rmatch import_part (str ''import'' @ w1 # B @ w2 # str ''from'' @ w3 # q1 # M @ q2 # tail)
        = pre @ (None, q1 # M @ q2 # tail) # post
      \<and> (\<forall>(g, s1) \<in> set pre. qcount s1 \<le> 1)"
proof -
  let ?Z = "q1 # M @ q2 # tail"
  let ?R = "w2 # str ''from'' @ w3 # ?Z"
  let ?X = "Seq (One Space) (Seq (Chars (str ''from'')) (One Space))"
  from B obtain b B' where b: "B = b # B'" "b \<noteq> 10" "\<forall>x \<in> set B'. in_cls Dot x"
    by (cases B) auto
  from star_last [of Dot ?R] obtain front where
    front: "star Dot ?R = front @ [?R]" "\<forall>t \<in> set front. strict_suffix t ?R"
    by blast
  from star_through [OF b(3), of ?R] obtain others where
    "star Dot (B' @ ?R) = star Dot ?R @ others"
    by blast
  with front(1) b(2) have dots: "rmatch (Plus Dot) (B @ ?R)
      = map (Pair None) front @ [(None, ?R)] @ map (Pair None) others"
    by (simp add: b(1))
  have at_R: "rmatch ?X ?R = [(None, ?Z)]"
    using sp by simp
  let ?pre = "then_match ?X (map (Pair None) front)"
  have pre: "\<forall>(g, s1) \<in> set ?pre. qcount s1 \<le> 1"
  proof (clarify)
    fix g s1
    assume "(g, s1) \<in> set ?pre"
    from then_match_set [OF this]
    obtain t g2 where "t \<in> set front" and res: "(g2, s1) \<in> set (rmatch ?X t)"
      by (auto simp del: rmatch.simps)
    with front(2) have "strict_suffix t ?R" by blast
    from from_part_strict_suffix [OF this sp(3) q M tail res] show "qcount s1 \<le> 1" .
  qed
  have "rmatch (Seq (Plus Dot) ?X) (B @ ?R) = then_match ?X (rmatch (Plus Dot) (B @ ?R))"
    by (rule rmatch_Seq)
  also have "\<dots> = ?pre @ rmatch ?X ?R @ then_match ?X (map (Pair None) others)"
    by (simp only: dots then_match_append then_match_Cons_None then_match_Nil append_Nil2)
  also have "\<dots> = ?pre @ (None, ?Z) # then_match ?X (map (Pair None) others)"
    by (simp only: at_R append_Cons append_Nil)
  finally have "rmatch (Seq (Plus Dot) ?X) (B @ ?R)
      = ?pre @ (None, ?Z) # then_match ?X (map (Pair None) others)" .
  moreover have "rmatch import_part (str ''import'' @ w1 # B @ ?R)
      = rmatch (Seq (Plus Dot) ?X) (B @ ?R)"
  proof -
    have "rmatch (Chars (str ''import'')) (str ''import'' @ w1 # B @ ?R) = [(None, w1 # B @ ?R)]"
      by simp
    moreover have "rmatch (One Space) (w1 # B @ ?R) = [(None, B @ ?R)]"
      using sp(1) by simp
    ultimately show ?thesis
      by (simp only: import_part_def rmatch_Seq then_match_single)
  qed
  ultimately have "rmatch import_part (str ''import'' @ w1 # B @ ?R)
      = ?pre @ (None, ?Z) # then_match ?X (map (Pair None) others)"
    by simp
  with pre show ?thesis by blast
qed

lemma import_form_match:
  assumes sp: "is_space w1" "is_space w2" "is_space w3"
    and B: "B \<noteq> []" "10 \<notin> set B"
    and q: "q1 \<in> set quotes" "q2 \<in> set quotes"
    and M: "M \<noteq> []" "set M \<inter> set quotes = {}" and tail: "set tail \<inter> set quotes = {}"
  shows "finditer JS_IMPORT_RE 0
      (str ''import'' @ w1 # B @ w2 # str ''from'' @ w3 # q1 # M @ q2 # tail) = [Some M]"
proof -
  let ?Z = "q1 # M @ q2 # tail"
  let ?txt = "str ''import'' @ w1 # B @ w2 # str ''from'' @ w3 # ?Z"
  from import_part_results [OF sp B q M(2) tail] obtain pre post where
    imp: "rmatch import_part ?txt = pre @ (None, ?Z) # post"
    and pre: "\<forall>(g, s1) \<in> set pre. qcount s1 \<le> 1"
    by blast
  have "rmatch module_part s1 = []" if "(g, s1) \<in> set pre" for g s1
    using that pre module_part_two_quotes [of s1] by fastforce
  then have skip: "then_match module_part pre = []"
    by (intro then_match_fail) auto
  from module_part_head [of "[]" q1 q2 M tail] q M obtain others where
    "rmatch module_part ?Z = (Some M, tail) # others"
    by auto
  then have "\<exists>others. then_match module_part ((None, ?Z) # post) = (Some M, tail) # others"
    by (simp add: then_match_Cons)
  with skip have "\<exists>others. then_match module_part (rmatch import_part ?txt)
      = (Some M, tail) # others"
    by (simp only: imp then_match_append append_Nil)
  then have "\<exists>others. rmatch JS_IMPORT_RE ?txt = (Some M, tail) # others"
    by (simp only: JS_IMPORT_RE_parts rmatch_Seq rmatch.simps(6) then_match_append) auto
  then obtain others where
    "rmatch JS_IMPORT_RE (105 # (str ''mport'' @ w1 # B @ w2 # str ''from'' @ w3 # q1 # M @ [q2]) @ tail)
       = (Some M, tail) # others"
    by auto
  from finditer_single [OF this tail] show ?thesis by simp
qed

lemma require_form_match:
  assumes ws: "\<forall>w \<in> set ws. is_space w"
    and q: "q1 \<in> set quotes" "q2 \<in> set quotes"
    and M: "M \<noteq> []" "set M \<inter> set quotes = {}" and tail: "set tail \<inter> set quotes = {}"
  shows "finditer JS_IMPORT_RE 0 (str ''require('' @ ws @ q1 # M @ q2 # tail) = [Some M]"
proof -
  let ?Z = "ws @ q1 # M @ q2 # tail"
  let ?txt = "str ''require('' @ ?Z"
  have "rmatch import_part ?txt = []"
    by (simp add: import_part_def)
  moreover have "rmatch (Chars (str ''require('')) ?txt = [(None, ?Z)]"
    by simp
  ultimately have "rmatch JS_IMPORT_RE ?txt = rmatch module_part ?Z"
    by (simp only: JS_IMPORT_RE_parts rmatch_Seq rmatch.simps(6) append_Nil then_match_single)
  with module_part_head [OF ws q M, of tail] obtain others where
    "rmatch JS_IMPORT_RE ?txt = (Some M, tail) # others"
    by auto
  then have "rmatch JS_IMPORT_RE (114 # (str ''equire('' @ ws @ q1 # M @ [q2]) @ tail)
       = (Some M, tail) # others"
    by simp
  from finditer_single [OF this tail] show ?thesis by simp
qed

lemma import_form_extract:
  assumes "is_space w1" "is_space w2" "is_space w3" and "B \<noteq> []" "10 \<notin> set B"
    and "q1 \<in> set quotes" "q2 \<in> set quotes"
    and "M \<noteq> []" "set M \<inter> set quotes = {}" and "set rest \<inter> set quotes = {}"
  shows "extract_js_imports
      (\<lambda>p. Inr (str ''import'' @ w1 # B @ w2 # str ''from'' @ w3 # q1 # M @ q2 # rest)) js_path
      = Inr (if startswith_dot M then {} else {takeWhile (\<lambda>c. c \<noteq> 47) M})"
  by (simp only: extract_js_imports_def sum.case import_form_match [OF assms] js_mods_single)

lemma require_form_extract:
  assumes "\<forall>w \<in> set ws. is_space w" and "q1 \<in> set quotes" "q2 \<in> set quotes"
    and "M \<noteq> []" "set M \<inter> set quotes = {}" and "set rest \<inter> set quotes = {}"
  shows "extract_js_imports (\<lambda>p. Inr (str ''require('' @ ws @ q1 # M @ q2 # rest)) js_path
      = Inr (if startswith_dot M then {} else {takeWhile (\<lambda>c. c \<noteq> 47) M})"
  by (simp only: extract_js_imports_def sum.case require_form_match [OF assms] js_mods_single)

subsection \<open>The nodes of a syntax tree\<close>

lemma occurs_in_iff:
  "occurs_in tree n \<longleftrightarrow> n = tree \<or> (\<exists>c \<in> set (iter_child_nodes tree). occurs_in c n)"
  by (auto intro: occurs_in.intros elim: occurs_in.cases)

lemma set_walk: "set (walk todo) = {n. \<exists>t \<in> set todo. occurs_in t n}"
proof (induction todo rule: walk.induct)
  case 1
  show ?case by simp
next
  case (2 node todo)
  have node: "occurs_in node n \<longleftrightarrow>
      n = node \<or> (\<exists>c \<in> set (iter_child_nodes node). occurs_in c n)" for n
    by (rule occurs_in_iff)
  have "{n. \<exists>t \<in> set (node # todo). occurs_in t n}
      = insert node {n. \<exists>t \<in> set (todo @ iter_child_nodes node). occurs_in t n}"
    by (auto simp: node)
  with 2 show ?case by simp
qed

lemma fold_insert_image: "fold (\<lambda>a. insert (f a)) xs A = A \<union> f ` set xs"
  by (induction xs arbitrary: A) auto

lemma visit_union: "visit n mods = mods \<union> visit n {}"
  by (cases n) (auto simp: fold_insert_image split: option.splits)

lemma fold_visit: "fold visit ns mods = mods \<union> (\<Union>n \<in> set ns. visit n {})"
proof (induction ns arbitrary: mods)
  case Nil
  show ?case by simp
next
  case (Cons n ns)
  show ?case by (simp add: Cons [of "visit n mods"]) (use visit_union [of n mods] in auto)
qed

lemma python_mods:
  "fold visit (walk [tree]) {} =
     {first_dotted (alias_name a) | a names. occurs_in tree (Import names) \<and> a \<in> set names}
     \<union> {first_dotted m | m names lvl. occurs_in tree (ImportFrom (Some m) names lvl) \<and> m \<noteq> []}"
  (is "?l = ?r")
proof (rule set_eqI)
  fix x
  have "x \<in> ?l \<longleftrightarrow> (\<exists>n. occurs_in tree n \<and> x \<in> visit n {})"
    unfolding fold_visit set_walk by auto
  also have "\<dots> \<longleftrightarrow> x \<in> ?r"
  proof
    assume "\<exists>n. occurs_in tree n \<and> x \<in> visit n {}"
    then obtain n where n: "occurs_in tree n" "x \<in> visit n {}" by blast
    then show "x \<in> ?r"
      by (cases n) (fastforce simp: fold_insert_image split: option.splits if_splits)+
  next
    assume "x \<in> ?r"
    then consider a names where "occurs_in tree (Import names)" "a \<in> set names"
        "x = first_dotted (alias_name a)"
      | m names lvl where "occurs_in tree (ImportFrom (Some m) names lvl)" "m \<noteq> []"
        "x = first_dotted m"
      by blast
    then show "\<exists>n. occurs_in tree n \<and> x \<in> visit n {}"
    proof cases
      case 1
      then have "x \<in> visit (Import names) {}" by (simp add: fold_insert_image)
      with 1 show ?thesis by blast
    next
      case 2
      then have "x \<in> visit (ImportFrom (Some m) names lvl) {}" by simp
      with 2 show ?thesis by blast
    qed
  qed
  finally show "x \<in> ?l \<longleftrightarrow> x \<in> ?r" .
qed

section \<open>Properties of the Graph Builder\<close>

subsection \<open>Matching and merging nodes\<close>

lemma set_match_nodes:
  "set (match_nodes l k g) = {i. i < length (nodes g) \<and> nodes g ! i = (l, k)}"
  by (auto simp: match_nodes_def)

lemma match_nodes_Nil_iff: "match_nodes l k g = [] \<longleftrightarrow> (l, k) \<notin> set (nodes g)"
  by (auto simp: match_nodes_def filter_empty_conv in_set_conv_nth)

lemma match_nodes_cong: "nodes g = nodes g' \<Longrightarrow> match_nodes l k g = match_nodes l k g'"
  by (simp add: match_nodes_def)

lemma match_nodes_append:
  "match_nodes l k (g\<lparr>nodes := nodes g @ [n]\<rparr>) =
     match_nodes l k g @ (if n = (l, k) then [length (nodes g)] else [])"
proof -
  have "filter (\<lambda>i. (nodes g @ [n]) ! i = (l, k)) [0..<length (nodes g)]
          = filter (\<lambda>i. nodes g ! i = (l, k)) [0..<length (nodes g)]"
    by (rule filter_cong) (simp_all add: nth_append)
  then show ?thesis by (simp add: match_nodes_def)
qed

lemma merge_node_present:
  "(l, k) \<in> set (nodes g) \<Longrightarrow> merge_node l k g = (match_nodes l k g, g)"
  by (simp add: merge_node_def match_nodes_Nil_iff)

lemma merge_node_absent:
  "(l, k) \<notin> set (nodes g) \<Longrightarrow>
     merge_node l k g = ([length (nodes g)], g\<lparr>nodes := nodes g @ [(l, k)]\<rparr>)"
  by (simp add: merge_node_def match_nodes_Nil_iff)

lemma merge_node_fst:
  "fst (merge_node l k g) = match_nodes l k (snd (merge_node l k g))"
proof (cases "(l, k) \<in> set (nodes g)")
  case True
  then show ?thesis by (simp add: merge_node_present)
next
  case False
  then have "match_nodes l k g = []" by (simp add: match_nodes_Nil_iff)
  with False show ?thesis by (simp add: merge_node_absent match_nodes_append)
qed

lemma merge_node_in: "(l, k) \<in> set (nodes (snd (merge_node l k g)))"
  by (cases "(l, k) \<in> set (nodes g)") (simp_all add: merge_node_present merge_node_absent)

lemma merge_node_rels [simp]: "rels (snd (merge_node l k g)) = rels g"
  by (simp add: merge_node_def Let_def)

lemma merge_node_constraints [simp]: "constraints (snd (merge_node l k g)) = constraints g"
  by (simp add: merge_node_def Let_def)

lemma merge_node_prefix: "prefix (nodes g) (nodes (snd (merge_node l k g)))"
  by (simp add: merge_node_def Let_def)

lemma merge_node_stable:
  assumes "(l, k) \<in> set (nodes g) \<or> (l, k) \<noteq> (l', k')"
  shows "match_nodes l k (snd (merge_node l' k' g)) = match_nodes l k g"
proof (cases "(l', k') \<in> set (nodes g)")
  case True
  then show ?thesis by (simp add: merge_node_present)
next
  case False
  with assms have "(l', k') \<noteq> (l, k)" by auto
  with False show ?thesis by (simp add: merge_node_absent match_nodes_append)
qed

lemma keys_append:
  "keys l (g\<lparr>nodes := nodes g @ [(l', k)]\<rparr>) = keys l g @ (if l' = l then [k] else [])"
  by (simp add: keys_def)

lemma set_keys: "k \<in> set (keys l g) \<longleftrightarrow> (l, k) \<in> set (nodes g)"
  by (force simp: keys_def)

lemma merge_node_keys_distinct:
  "distinct (keys l g) \<Longrightarrow> distinct (keys l (snd (merge_node l' k g)))"
  by (cases "(l', k) \<in> set (nodes g)")
     (auto simp: merge_node_present merge_node_absent keys_append set_keys)

subsection \<open>Unique nodes and relationships\<close>

lemma distinct_keys_index:
  "distinct (map f (filter Q xs)) \<Longrightarrow> i < length xs \<Longrightarrow> j < length xs \<Longrightarrow>
     Q (xs ! i) \<Longrightarrow> Q (xs ! j) \<Longrightarrow> f (xs ! i) = f (xs ! j) \<Longrightarrow> i = j"
proof (induction xs arbitrary: i j)
  case Nil
  then show ?case by simp
next
  case (Cons x xs)
  show ?case
  proof (cases i)
    case 0
    show ?thesis
    proof (cases j)
      case 0
      with \<open>i = 0\<close> show ?thesis by simp
    next
      case (Suc j')
      with 0 Cons.prems have "f x \<in> f ` set (filter Q xs)" by (auto simp: image_iff)
      with 0 Cons.prems show ?thesis by auto
    qed
  next
    case (Suc i')
    show ?thesis
    proof (cases j)
      case 0
      with Suc Cons.prems have "f x \<in> f ` set (filter Q xs)"
        by (auto simp: image_iff intro!: bexI [of _ "xs ! i'"])
      with 0 Cons.prems show ?thesis by auto
    next
      case (Suc j')
      with \<open>i = Suc i'\<close> Cons.prems have "i' = j'"
        by (intro Cons.IH) (auto split: if_splits)
      with Suc \<open>i = Suc i'\<close> show ?thesis by simp
    qed
  qed
qed

lemma all_equal_length:
  assumes "distinct xs" and "\<forall>x \<in> set xs. \<forall>y \<in> set xs. x = y"
  shows "length xs \<le> 1"
proof (cases xs)
  case Nil
  then show ?thesis by simp
next
  case (Cons x ys)
  show ?thesis
  proof (cases ys)
    case Nil
    with Cons show ?thesis by simp
  next
    case (Cons y zs)
    with \<open>xs = x # ys\<close> have xs: "xs = x # y # zs" by simp
    have "x \<in> set xs" "y \<in> set xs" unfolding xs by simp_all
    with assms(2) have "x = y" by blast
    moreover from assms(1) have "x \<noteq> y" unfolding xs by simp
    ultimately show ?thesis by contradiction
  qed
qed

lemma match_nodes_unique:
  assumes "distinct (keys l g)"
  shows "length (match_nodes l k g) \<le> 1"
proof (rule all_equal_length)
  show "distinct (match_nodes l k g)" by (simp add: match_nodes_def)
  show "\<forall>x \<in> set (match_nodes l k g). \<forall>y \<in> set (match_nodes l k g). x = y"
  proof (intro ballI)
    fix x y
    assume "x \<in> set (match_nodes l k g)" "y \<in> set (match_nodes l k g)"
    then have "x < length (nodes g)" "y < length (nodes g)" "nodes g ! x = (l, k)"
      "nodes g ! y = (l, k)"
      by (simp_all add: set_match_nodes)
    with assms show "x = y"
      unfolding keys_def
      by (intro distinct_keys_index [of snd "\<lambda>n. fst n = l" "nodes g" x y]) simp_all
  qed
qed

lemma imports_edges_unique:
  assumes "graph_inv g"
  shows "length (imports_edges g path name) \<le> 1"
proof (rule all_equal_length)
  from assms show "distinct (imports_edges g path name)"
    by (simp add: imports_edges_def graph_inv_def)
  from assms have "distinct (keys File g)" "distinct (keys Module g)"
    by (simp_all add: graph_inv_def)
  then have f: "length (match_nodes File path g) \<le> 1"
    and m: "length (match_nodes Module name g) \<le> 1"
    by (simp_all only: match_nodes_unique)
  have one: "a = b" if "a \<in> set xs" "b \<in> set xs" "length xs \<le> 1" for a b :: nat and xs
    using that by (cases xs) auto
  show "\<forall>x \<in> set (imports_edges g path name). \<forall>y \<in> set (imports_edges g path name). x = y"
    using one [OF _ _ f] one [OF _ _ m] by (auto simp: imports_edges_def)
qed

subsection \<open>Merging relationships\<close>

lemma fold_merge_rel_nodes [simp]: "nodes (fold merge_rel rs g) = nodes g"
  by (induction rs arbitrary: g) (simp_all add: merge_rel_def)

lemma fold_merge_rel_constraints [simp]: "constraints (fold merge_rel rs g) = constraints g"
  by (induction rs arbitrary: g) (simp_all add: merge_rel_def)

lemma fold_merge_rel_set: "set (rels (fold merge_rel rs g)) = set (rels g) \<union> set rs"
  by (induction rs arbitrary: g) (auto simp: merge_rel_def)

lemma fold_merge_rel_distinct: "distinct (rels g) \<Longrightarrow> distinct (rels (fold merge_rel rs g))"
  by (induction rs arbitrary: g) (simp_all add: merge_rel_def)

lemma fold_merge_rel_prefix: "prefix (rels g) (rels (fold merge_rel rs g))"
proof (induction rs arbitrary: g)
  case Nil
  show ?case by simp
next
  case (Cons r rs)
  have "prefix (rels g) (rels (merge_rel r g))" by (simp add: merge_rel_def)
  with Cons [of "merge_rel r g"] show ?case by (auto intro: prefix_order.trans)
qed

lemma fold_merge_rel_noop: "set rs \<subseteq> set (rels g) \<Longrightarrow> fold merge_rel rs g = g"
  by (induction rs arbitrary: g) (simp_all add: merge_rel_def)

lemma set_pairs:
  "set (concat (map (\<lambda>m. map (\<lambda>f. (f, m)) fs) ms)) = set fs \<times> set ms"
  by auto

subsection \<open>One statement\<close>

lemma exec_MergeImport:
  "exec (MergeImport name path) g =
     Inr (fold merge_rel
            (concat (map (\<lambda>m. map (\<lambda>f. (f, m))
                       (fst (merge_node File path (snd (merge_node Module name g)))))
                       (fst (merge_node Module name g))))
            (snd (merge_node File path (snd (merge_node Module name g)))))"
  by (simp add: split_def Let_def)

lemma exec_prefix:
  assumes "exec q g = Inr g'"
  shows "prefix (constraints g) (constraints g') \<and> prefix (nodes g) (nodes g')
         \<and> prefix (rels g) (rels g')"
proof (cases q)
  case (CreateConstraint l)
  with assms show ?thesis by (auto split: if_splits)
next
  case (MergeFile path)
  with assms show ?thesis by (auto simp: merge_node_prefix)
next
  case (MergeImport name path)
  with assms have g': "g' = fold merge_rel
            (concat (map (\<lambda>m. map (\<lambda>f. (f, m))
                       (fst (merge_node File path (snd (merge_node Module name g)))))
                       (fst (merge_node Module name g))))
            (snd (merge_node File path (snd (merge_node Module name g))))"
    by (simp only: exec_MergeImport sum.inject)
  have "prefix (nodes g) (nodes (snd (merge_node File path (snd (merge_node Module name g)))))"
    using merge_node_prefix [of g Module name]
      merge_node_prefix [of "snd (merge_node Module name g)" File path]
    by (rule prefix_order.trans)
  moreover have "prefix (rels g) (rels g')"
    using fold_merge_rel_prefix [of "snd (merge_node File path (snd (merge_node Module name g)))"]
    by (simp add: g')
  ultimately show ?thesis by (simp add: g')
qed

lemma exec_inv:
  assumes "exec q g = Inr g'" and "graph_inv g"
  shows "graph_inv g'"
proof (cases q)
  case (CreateConstraint l)
  with assms show ?thesis by (auto simp: graph_inv_def keys_def split: if_splits)
next
  case (MergeFile path)
  with assms show ?thesis by (auto simp: graph_inv_def merge_node_keys_distinct)
next
  case (MergeImport name path)
  with assms(1) have g': "g' = fold merge_rel
            (concat (map (\<lambda>m. map (\<lambda>f. (f, m))
                       (fst (merge_node File path (snd (merge_node Module name g)))))
                       (fst (merge_node Module name g))))
            (snd (merge_node File path (snd (merge_node Module name g))))"
    by (simp only: exec_MergeImport sum.inject)
  have k: "keys l g' = keys l (snd (merge_node File path (snd (merge_node Module name g))))" for l
    by (simp add: g' keys_def)
  from assms(2) show ?thesis
    by (simp add: graph_inv_def k merge_node_keys_distinct)
       (simp add: g' fold_merge_rel_distinct)
qed

lemma exec_established:
  assumes "exec q g = Inr g'"
  shows "established q g'"
proof (cases q)
  case (CreateConstraint l)
  with assms show ?thesis by (auto split: if_splits)
next
  case (MergeFile path)
  with assms show ?thesis by (auto simp: merge_node_in)
next
  case (MergeImport name path)
  let ?g1 = "snd (merge_node Module name g)"
  let ?g2 = "snd (merge_node File path ?g1)"
  let ?ms = "fst (merge_node Module name g)"
  let ?fs = "fst (merge_node File path ?g1)"
  from MergeImport assms
  have g': "g' = fold merge_rel (concat (map (\<lambda>m. map (\<lambda>f. (f, m)) ?fs) ?ms)) ?g2"
    by (simp only: exec_MergeImport sum.inject)
  have n: "nodes g' = nodes ?g2" by (simp add: g')
  have m1: "(Module, name) \<in> set (nodes ?g1)" by (rule merge_node_in)
  have f2: "(File, path) \<in> set (nodes ?g2)" by (rule merge_node_in)
  have m2: "(Module, name) \<in> set (nodes ?g2)"
    using m1 merge_node_prefix [of ?g1 File path] by (auto dest: set_mono_prefix)
  have fs: "?fs = match_nodes File path g'"
    by (simp add: merge_node_fst match_nodes_cong [OF n])
  have "?ms = match_nodes Module name ?g1" by (rule merge_node_fst)
  also have "\<dots> = match_nodes Module name ?g2"
    using m1 by (simp add: merge_node_stable)
  finally have ms: "?ms = match_nodes Module name g'"
    by (simp add: match_nodes_cong [OF n])
  have "set ?fs \<times> set ?ms \<subseteq> set (rels g')"
    by (simp only: g' fold_merge_rel_set set_pairs) blast
  with f2 m2 show ?thesis
    by (simp add: MergeImport linked_def n flip: fs ms)
qed

lemma established_noop:
  assumes "established q g"
  shows "exec q g = Inr g"
proof (cases q)
  case (CreateConstraint l)
  with assms show ?thesis by simp
next
  case (MergeFile path)
  with assms show ?thesis by (simp add: merge_node_present)
next
  case (MergeImport name path)
  with assms have l: "linked g path name" by simp
  then have "set (match_nodes File path g) \<times> set (match_nodes Module name g) \<subseteq> set (rels g)"
    by (simp add: linked_def)
  then have "fold merge_rel
      (concat (map (\<lambda>m. map (\<lambda>f. (f, m)) (match_nodes File path g)) (match_nodes Module name g))) g = g"
    by (intro fold_merge_rel_noop) (simp only: set_pairs)
  with l show ?thesis
    by (simp add: MergeImport linked_def merge_node_present)
qed

lemma established_exec:
  assumes "established q g" and "exec q' g = Inr g'"
  shows "established q g'"
proof -
  from exec_prefix [OF assms(2)]
  have c: "set (constraints g) \<subseteq> set (constraints g')"
    and n: "set (nodes g) \<subseteq> set (nodes g')" and r: "set (rels g) \<subseteq> set (rels g')"
    by (auto dest: set_mono_prefix)
  have stable: "match_nodes l k g' = match_nodes l k g" if "(l, k) \<in> set (nodes g)" for l k
  proof (cases q')
    case (CreateConstraint l')
    with assms(2) have "nodes g' = nodes g" by (auto split: if_splits)
    then show ?thesis by (rule match_nodes_cong)
  next
    case (MergeFile path)
    with assms(2) that show ?thesis by (auto simp: merge_node_stable)
  next
    case (MergeImport name path)
    let ?g1 = "snd (merge_node Module name g)"
    let ?g2 = "snd (merge_node File path ?g1)"
    from MergeImport assms(2) have "nodes g' = nodes ?g2"
      by (simp add: exec_MergeImport del: exec.simps) auto
    then have "match_nodes l k g' = match_nodes l k ?g2" by (rule match_nodes_cong)
    also have "\<dots> = match_nodes l k ?g1"
      using that merge_node_prefix [of g Module name]
      by (intro merge_node_stable) (auto dest: set_mono_prefix)
    also have "\<dots> = match_nodes l k g"
      using that by (intro merge_node_stable) simp
    finally show ?thesis .
  qed
  show ?thesis
  proof (cases q)
    case (CreateConstraint l)
    with assms(1) c show ?thesis by auto
  next
    case (MergeFile path)
    with assms(1) n show ?thesis by auto
  next
    case (MergeImport name path)
    with assms(1) have l: "linked g path name" by simp
    then have "match_nodes File path g' = match_nodes File path g"
      and "match_nodes Module name g' = match_nodes Module name g"
      by (simp_all add: linked_def stable)
    with l n r show ?thesis
      by (simp add: MergeImport linked_def) blast
  qed
qed

subsection \<open>A batch of statements\<close>

lemma merge_imports_run_all:
  "merge_imports s file_node mods = run_all s (map (\<lambda>name. MergeImport name file_node) mods)"
  by (induction mods arbitrary: s) (simp_all split: prod.splits option.splits)

lemma build_graph_run_all: "build_graph s file_node imports = run_all s (batch file_node imports)"
  by (simp add: build_graph_def batch_def merge_imports_run_all
      split: prod.splits option.splits)

lemma run_cases:
  assumes "run q s = (r, s')"
  obtains (fault) e where "next_fault s = Some e" "r = Some e"
      "s' = s\<lparr>faults := tl (faults s), log := log s @ [q]\<rparr>"
  | (refused) e where "next_fault s = None" "exec q (db s) = Inl e" "r = Some e"
      "s' = s\<lparr>faults := tl (faults s), log := log s @ [q]\<rparr>"
  | (ran) g where "next_fault s = None" "exec q (db s) = Inr g" "r = None"
      "s' = s\<lparr>faults := tl (faults s), log := log s @ [q], db := g\<rparr>"
  using assms by (auto simp: run_def Let_def split: option.splits sum.splits)

lemma run_log: "run q s = (r, s') \<Longrightarrow> log s' = log s @ [q]"
  by (erule run_cases) simp_all



lemma run_inv: "run q s = (r, s') \<Longrightarrow> graph_inv (db s) \<Longrightarrow> graph_inv (db s')"
  by (erule run_cases) (simp_all add: exec_inv)

lemma run_all_log:
  "run_all s qs = (r, s') \<Longrightarrow>
     \<exists>k \<le> length qs. log s' = log s @ take k qs \<and> (r = None \<longrightarrow> k = length qs)"
proof (induction qs arbitrary: s)
  case Nil
  then show ?case by simp
next
  case (Cons q qs)
  obtain r1 s1 where r1: "run q s = (r1, s1)" by (cases "run q s")
  show ?case
  proof (cases r1)
    case None
    with Cons.prems r1 have "run_all s1 qs = (r, s')" by simp
    from Cons.IH [OF this] obtain k where "k \<le> length qs" "log s' = log s1 @ take k qs"
      "r = None \<longrightarrow> k = length qs" by blast
    with run_log [OF r1] show ?thesis by (intro exI [of _ "Suc k"]) simp
  next
    case (Some e)
    with Cons.prems r1 have "r = Some e" "s' = s1" by simp_all
    with run_log [OF r1] show ?thesis by (intro exI [of _ "Suc 0"]) simp
  qed
qed


lemma run_all_inv: "run_all s qs = (r, s') \<Longrightarrow> graph_inv (db s) \<Longrightarrow> graph_inv (db s')"
proof (induction qs arbitrary: s)
  case Nil
  then show ?case by simp
next
  case (Cons q qs)
  obtain r1 s1 where r1: "run q s = (r1, s1)" by (cases "run q s")
  from run_inv [OF r1 Cons.prems(2)] have inv1: "graph_inv (db s1)" .
  show ?case
  proof (cases r1)
    case None
    with Cons.prems r1 have "run_all s1 qs = (r, s')" by simp
    from Cons.IH [OF this inv1] show ?thesis .
  next
    case (Some e)
    with Cons.prems r1 inv1 show ?thesis by simp
  qed
qed


subsection \<open>Running a batch again\<close>

lemma run_established:
  assumes "faults s = []" and "established q (db s)"
  shows "run q s = (None, s\<lparr>log := log s @ [q]\<rparr>)"
  using assms by (cases s) (simp add: run_def next_fault_def established_noop)

lemma run_all_established:
  assumes "faults s = []" and "\<forall>q \<in> set pre. established q (db s)"
  shows "run_all s (pre @ qs) = run_all (s\<lparr>log := log s @ pre\<rparr>) qs"
  using assms
proof (induction pre arbitrary: s)
  case Nil
  then show ?case by simp
next
  case (Cons q pre)
  then have "run q s = (None, s\<lparr>log := log s @ [q]\<rparr>)"
    by (simp add: run_established)
  moreover have "run_all (s\<lparr>log := log s @ [q]\<rparr>) (pre @ qs)
                   = run_all (s\<lparr>log := log s @ [q]\<rparr>\<lparr>log := log (s\<lparr>log := log s @ [q]\<rparr>) @ pre\<rparr>) qs"
    using Cons.prems by (intro Cons.IH) simp_all
  ultimately show ?case by simp
qed

lemma established_run:
  assumes "established q (db s)" and "run q' s = (r, s')"
  shows "established q (db s')"
  using assms(2) by (rule run_cases) (use assms(1) in \<open>simp_all add: established_exec\<close>)

lemma run_all_again:
  assumes "run_all s qs = (r, s')" and "faults s = []"
    and "\<forall>q \<in> set pre. established q (db s)"
  shows "fst (run_all s' (pre @ qs)) = r \<and> db (snd (run_all s' (pre @ qs))) = db s'"
  using assms
proof (induction qs arbitrary: s pre)
  case Nil
  then show ?case by (simp add: run_all_established [where qs = "[]", simplified])
next
  case (Cons q qs)
  obtain r1 s1 where r1: "run q s = (r1, s1)" by (cases "run q s")
  from Cons.prems(2) have nf: "next_fault s = None" by (simp add: next_fault_def)
  from r1 show ?case
  proof (cases rule: run_cases)
    case (fault e)
    with nf show ?thesis by simp
  next
    case (refused e)
    with Cons.prems(1) r1 have s': "s' = s1" "r = Some e" by simp_all
    from refused Cons.prems(2) have f1: "faults s1 = []" and d1: "db s1 = db s" by simp_all
    have "run_all s1 (pre @ q # qs) = run_all (s1\<lparr>log := log s1 @ pre\<rparr>) (q # qs)"
      using f1 d1 Cons.prems(3) by (intro run_all_established) simp_all
    moreover have "run q (s1\<lparr>log := log s1 @ pre\<rparr>)
        = (Some e, s1\<lparr>log := log s1 @ pre @ [q]\<rparr>)"
      using f1 d1 refused(2) by (simp add: run_def next_fault_def)
    ultimately show ?thesis by (simp add: s')
  next
    case (ran g)
    with Cons.prems(1) r1 have rest: "run_all s1 qs = (r, s')" by simp
    from ran Cons.prems(2) have f1: "faults s1 = []" and d1: "db s1 = g" by simp_all
    have "established q g" using ran(2) by (rule exec_established)
    moreover have "\<forall>p \<in> set pre. established p g"
      using Cons.prems(3) ran(2) by (auto intro: established_exec)
    ultimately have "\<forall>p \<in> set (pre @ [q]). established p (db s1)"
      by (simp add: d1)
    from Cons.IH [OF rest f1 this] show ?thesis by simp
  qed
qed





lemma extract_python_imports_eq:
  assumes "read_text py_path = Inr src" and "parse src = Inr tree"
  shows "extract_python_imports read_text parse py_path =
     Inr ({first_dotted (alias_name a) | a names. occurs_in tree (Import names) \<and> a \<in> set names}
        \<union> {first_dotted m | m names lvl.
             occurs_in tree (ImportFrom (Some m) names lvl) \<and> m \<noteq> []})"
  using assms by (simp add: extract_python_imports_def python_mods del: walk.simps)

lemma extract_python_imports_total:
  "\<exists>mods. extract_python_imports read_text parse py_path = Inr mods"
  by (simp add: extract_python_imports_def split: sum.splits)

lemmas js_eval = extract_js_imports_def JS_IMPORT_RE_def quotes_def is_space_def
  startswith_dot_def

lemmas graph_eval = build_graph_def run_def next_fault_def empty_graph_def merge_node_def
  match_nodes_def merge_rel_def keys_def

section \<open>The properties of the specification\<close>

text \<open>
  C1 (the extractor never raises; every failure gives the empty set).  This fails for the
  JavaScript and TypeScript variant: \<open>extract_js_imports\<close> reads the file outside any
  \<open>try\<close>, so for a file whose bytes are not UTF-8 the \<open>UnicodeDecodeError\<close> of
  \<open>read_text\<close> leaves the extractor and the dispatcher, and ends the loop over the files
  before the files after it are looked at.  The Python variant, which reads inside its
  \<open>try\<close>, returns the empty set for the same file content.
\<close>

theorem undecodable_js_file_raises:
  "extract_js_imports (\<lambda>p. Inl UnicodeDecodeError) (str ''bad.js'') = Inl UnicodeDecodeError
   \<and> extract_imports (\<lambda>p. Inl UnicodeDecodeError) parse (str ''bad.js'') = Inl UnicodeDecodeError
   \<and> extract_imports (\<lambda>p. Inl UnicodeDecodeError) parse (str ''bad.py'') = Inr {}
   \<and> scan_files (\<lambda>p. if p = str ''bad.js'' then Inl UnicodeDecodeError else Inr (str ''import os''))
         parse s [str ''bad.js'', str ''good.py''] = (Some UnicodeDecodeError, s)"
  by (simp add: extract_imports_def path_suffix_def path_name_def extract_js_imports_def
        extract_python_imports_def)

text \<open>
  C2 (Python: exactly the first dotted segments).  For a file that can be read and
  parsed, the extracted set consists of the first dotted segment of every alias of every
  \<open>Import\<close> node of the tree and of the module of every \<open>ImportFrom\<close> node that has one;
  an \<open>ImportFrom\<close> node without a module adds nothing.
\<close>

theorem python_imports_first_segments:
  assumes "read_text py_path = Inr src" and "parse src = Inr tree"
  shows "extract_python_imports read_text parse py_path =
     Inr ({first_dotted (alias_name a) | a names. occurs_in tree (Import names) \<and> a \<in> set names}
        \<union> {first_dotted m | m names lvl.
             occurs_in tree (ImportFrom (Some m) names lvl) \<and> m \<noteq> []})"
  using assms by (rule extract_python_imports_eq)

text \<open>
  The text \<open>import os.path\<close>, \<open>from os.path import join\<close> (two lines), with the tree
  \<open>ast.parse\<close> gives for it: the extracted set is \<open>{"os"}\<close>.
\<close>

theorem python_imports_first_segments_witness:
  "(\<lambda>p. Inr (str ''import os.path'' @ [10] @ str ''from os.path import join'')) (str ''a.py'')
     = (Inr (str ''import os.path'' @ [10] @ str ''from os.path import join'') :: py_error + pystr)
   \<and> extract_python_imports
       (\<lambda>p. Inr (str ''import os.path'' @ [10] @ str ''from os.path import join''))
       (\<lambda>src. Inr (Node ''Module''
          [Import [Alias (str ''os.path'') None],
           ImportFrom (Some (str ''os.path'')) [Alias (str ''join'') None] 0]))
       (str ''a.py'') = Inr {str ''os''}
   \<and> {first_dotted (alias_name a) | a names.
         occurs_in (Node ''Module''
          [Import [Alias (str ''os.path'') None],
           ImportFrom (Some (str ''os.path'')) [Alias (str ''join'') None] 0]) (Import names)
         \<and> a \<in> set names}
       \<union> {first_dotted m | m names lvl.
         occurs_in (Node ''Module''
          [Import [Alias (str ''os.path'') None],
           ImportFrom (Some (str ''os.path'')) [Alias (str ''join'') None] 0])
           (ImportFrom (Some m) names lvl) \<and> m \<noteq> []}
       = {str ''os''}"
proof -
  let ?src = "str ''import os.path'' @ [10] @ str ''from os.path import join''"
  let ?tree = "Node ''Module''
          [Import [Alias (str ''os.path'') None],
           ImportFrom (Some (str ''os.path'')) [Alias (str ''join'') None] 0]"
  have run: "extract_python_imports (\<lambda>p. Inr ?src) (\<lambda>src. Inr ?tree) (str ''a.py'')
      = Inr {str ''os''}"
    by (simp add: extract_python_imports_def first_dotted_def)
  from python_imports_first_segments
    [of "\<lambda>p. Inr ?src" "str ''a.py''" ?src "\<lambda>src. Inr ?tree" ?tree] run
  show ?thesis by simp
qed

text \<open>
  C3 (JavaScript and TypeScript: the two forms, first path segment, relative imports
  dropped).  For a file that can be read, the extracted set consists of the text before
  the first slash of the module string of every match of \<open>JS_IMPORT_RE\<close> whose module
  string does not start with a dot.  A text of the form \<open>import B from 'M'\<close> (the three
  gaps any white space character, \<open>B\<close> not empty and without a line feed) or
  \<open>require('M')\<close> (white space allowed before the opening quote), with single or double
  quotes around a module string \<open>M\<close> that is not empty and holds no quote, followed by
  any text without quotes, is matched with module string \<open>M\<close>: the extracted set is the
  first path segment of \<open>M\<close>, or empty when \<open>M\<close> starts with a dot.
  \<open>import x from './local'\<close> and \<open>require('./local')\<close> give the empty set,
  \<open>import x from 'lodash/fp'\<close> and \<open>require("lodash/fp")\<close> give \<open>{"lodash"}\<close>.
\<close>

theorem js_imports_first_segments:
  "(read_text js_path = Inr txt \<longrightarrow>
      extract_js_imports read_text js_path =
        Inr {takeWhile (\<lambda>c. c \<noteq> 47) m | m.
               Some m \<in> set (finditer JS_IMPORT_RE 0 txt) \<and> \<not> startswith_dot m})
   \<and> (is_space w1 \<and> is_space w2 \<and> is_space w3 \<and> B \<noteq> [] \<and> 10 \<notin> set B
        \<and> q1 \<in> set quotes \<and> q2 \<in> set quotes
        \<and> M \<noteq> [] \<and> set M \<inter> set quotes = {} \<and> set rest \<inter> set quotes = {} \<longrightarrow>
      extract_js_imports
        (\<lambda>p. Inr (str ''import'' @ w1 # B @ w2 # str ''from'' @ w3 # q1 # M @ q2 # rest)) js_path
        = Inr (if startswith_dot M then {} else {takeWhile (\<lambda>c. c \<noteq> 47) M}))
   \<and> ((\<forall>w \<in> set ws. is_space w) \<and> q1 \<in> set quotes \<and> q2 \<in> set quotes
        \<and> M \<noteq> [] \<and> set M \<inter> set quotes = {} \<and> set rest \<inter> set quotes = {} \<longrightarrow>
      extract_js_imports (\<lambda>p. Inr (str ''require('' @ ws @ q1 # M @ q2 # rest)) js_path
        = Inr (if startswith_dot M then {} else {takeWhile (\<lambda>c. c \<noteq> 47) M}))
   \<and> extract_js_imports (\<lambda>p. Inr (str ''import x from './local'' @ [39])) js_path = Inr {}
   \<and> extract_js_imports (\<lambda>p. Inr (str ''import x from 'lodash/fp'' @ [39])) js_path
       = Inr {str ''lodash''}
   \<and> extract_js_imports (\<lambda>p. Inr (str ''require('./local')'')) js_path = Inr {}
   \<and> extract_js_imports (\<lambda>p. Inr (str ''require(\"lodash/fp\")'')) js_path
       = Inr {str ''lodash''}"
proof -
  have "read_text js_path = Inr txt \<longrightarrow>
      extract_js_imports read_text js_path =
        Inr {takeWhile (\<lambda>c. c \<noteq> 47) m | m.
               Some m \<in> set (finditer JS_IMPORT_RE 0 txt) \<and> \<not> startswith_dot m}"
    by (simp add: extract_js_imports_eq)
  moreover have "is_space w1 \<and> is_space w2 \<and> is_space w3 \<and> B \<noteq> [] \<and> 10 \<notin> set B
        \<and> q1 \<in> set quotes \<and> q2 \<in> set quotes
        \<and> M \<noteq> [] \<and> set M \<inter> set quotes = {} \<and> set rest \<inter> set quotes = {} \<longrightarrow>
      extract_js_imports
        (\<lambda>p. Inr (str ''import'' @ w1 # B @ w2 # str ''from'' @ w3 # q1 # M @ q2 # rest)) js_path
        = Inr (if startswith_dot M then {} else {takeWhile (\<lambda>c. c \<noteq> 47) M})"
    using import_form_extract [of w1 w2 w3 B q1 q2 M rest js_path] by blast
  moreover have "(\<forall>w \<in> set ws. is_space w) \<and> q1 \<in> set quotes \<and> q2 \<in> set quotes
        \<and> M \<noteq> [] \<and> set M \<inter> set quotes = {} \<and> set rest \<inter> set quotes = {} \<longrightarrow>
      extract_js_imports (\<lambda>p. Inr (str ''require('' @ ws @ q1 # M @ q2 # rest)) js_path
        = Inr (if startswith_dot M then {} else {takeWhile (\<lambda>c. c \<noteq> 47) M})"
    using require_form_extract [of ws q1 q2 M rest js_path] by blast
  moreover have
    "extract_js_imports (\<lambda>p. Inr (str ''import x from './local'' @ [39])) js_path = Inr {}"
    by (simp add: js_eval)
  moreover have
    "extract_js_imports (\<lambda>p. Inr (str ''import x from 'lodash/fp'' @ [39])) js_path
       = Inr {str ''lodash''}"
    by (simp add: js_eval)
  moreover have
    "extract_js_imports (\<lambda>p. Inr (str ''require('./local')'')) js_path = Inr {}"
    by (simp add: js_eval)
  moreover have
    "extract_js_imports (\<lambda>p. Inr (str ''require(\"lodash/fp\")'')) js_path
       = Inr {str ''lodash''}"
    by (simp add: js_eval)
  ultimately show ?thesis by blast
qed

text \<open>
  The line \<open>import React from "react-dom/client";\<close> of a file \<open>b.ts\<close>, and the line
  \<open>require( 'fs/promises');\<close>.
\<close>

theorem js_imports_first_segments_witness:
  "{takeWhile (\<lambda>c. c \<noteq> 47) m | m.
        Some m \<in> set (finditer JS_IMPORT_RE 0 (str ''import React from \"react-dom/client\";''))
        \<and> \<not> startswith_dot m} = {str ''react-dom''}
   \<and> is_space 32 \<and> str ''React'' \<noteq> [] \<and> 10 \<notin> set (str ''React'') \<and> 34 \<in> set quotes
   \<and> str ''react-dom/client'' \<noteq> [] \<and> set (str ''react-dom/client'') \<inter> set quotes = {}
   \<and> set (str '';'') \<inter> set quotes = {}
   \<and> extract_js_imports (\<lambda>p. Inr (str ''import React from \"react-dom/client\";''))
         (str ''b.ts'') = Inr {str ''react-dom''}
   \<and> 39 \<in> set quotes \<and> str ''fs/promises'' \<noteq> []
   \<and> set (str ''fs/promises'') \<inter> set quotes = {} \<and> set (str '');'') \<inter> set quotes = {}
   \<and> extract_js_imports (\<lambda>p. Inr (str ''require( 'fs/promises');''))
         (str ''b.ts'') = Inr {str ''fs''}"
proof -
  let ?txt = "str ''import React from \"react-dom/client\";''"
  have run: "extract_js_imports (\<lambda>p. Inr ?txt) (str ''b.ts'') = Inr {str ''react-dom''}"
    by (simp add: js_eval)
  have run2: "extract_js_imports (\<lambda>p. Inr (str ''require( 'fs/promises');''))
         (str ''b.ts'') = Inr {str ''fs''}"
    by (simp add: js_eval)
  from js_imports_first_segments
    [of "\<lambda>p. Inr ?txt" "str ''b.ts''" ?txt 32 32 32 "str ''React''" 34 34
        "str ''react-dom/client''" "str '';''" "[32]"]
    run run2
  show ?thesis by (simp add: is_space_def quotes_def)
qed

text \<open>
  C4 (idempotence).  With the store reachable, a second call of \<open>build_graph\<close> with the
  same file and the same module set, on the session the first call left, leaves the store
  exactly as the first call left it (same nodes, same relationships, same constraints)
  and ends as the first call ended.
\<close>

theorem build_graph_idempotent:
  assumes "faults s = []"
  shows "db (snd (build_graph (snd (build_graph s file_node imports)) file_node imports))
           = db (snd (build_graph s file_node imports))
         \<and> fst (build_graph (snd (build_graph s file_node imports)) file_node imports)
           = fst (build_graph s file_node imports)"
proof -
  have "run_all s (batch file_node imports)
          = (fst (build_graph s file_node imports), snd (build_graph s file_node imports))"
    by (simp add: build_graph_run_all)
  from run_all_again [OF this assms, of "[]"] show ?thesis
    by (simp add: build_graph_run_all)
qed

theorem build_graph_idempotent_witness:
  "faults \<lparr>db = empty_graph, faults = [], log = []\<rparr> = []
   \<and> db (snd (build_graph \<lparr>db = empty_graph, faults = [], log = []\<rparr>
               (str ''a.py'') {str ''os'', str ''json''}))
     = \<lparr>constraints = [File, Module],
        nodes = [(File, str ''a.py''), (Module, str ''json''), (Module, str ''os'')],
        rels = [(0, 1), (0, 2)]\<rparr>
   \<and> db (snd (build_graph
         (snd (build_graph \<lparr>db = empty_graph, faults = [], log = []\<rparr>
                 (str ''a.py'') {str ''os'', str ''json''}))
         (str ''a.py'') {str ''os'', str ''json''}))
     = \<lparr>constraints = [File, Module],
        nodes = [(File, str ''a.py''), (Module, str ''json''), (Module, str ''os'')],
        rels = [(0, 1), (0, 2)]\<rparr>"
proof -
  let ?s = "\<lparr>db = empty_graph, faults = [], log = []\<rparr>"
  have once: "db (snd (build_graph ?s (str ''a.py'') {str ''os'', str ''json''}))
     = \<lparr>constraints = [File, Module],
        nodes = [(File, str ''a.py''), (Module, str ''json''), (Module, str ''os'')],
        rels = [(0, 1), (0, 2)]\<rparr>"
    by (simp add: graph_eval)
  have "faults ?s = []" by simp
  from build_graph_idempotent [OF this, of "str ''a.py''" "{str ''os'', str ''json''}"] once
  show ?thesis by simp
qed

text \<open>
  C5 (uniqueness invariants).  Starting from a store in which paths, names and
  relationships are unique (the empty store is one), every store reached by calls of
  \<open>build_graph\<close>, whatever their arguments and whether they return or raise, has unique
  \<open>File\<close> paths, unique \<open>Module\<close> names and no relationship twice: there is at most
  one node for a path, at most one node for a module name, and at most one \<open>IMPORTS\<close>
  relationship from a file to a module.
\<close>

theorem reachable_graph_inv:
  assumes "reachable g0 g" and "graph_inv g0"
  shows "graph_inv g
         \<and> length (match_nodes File path g) \<le> 1
         \<and> length (match_nodes Module name g) \<le> 1
         \<and> length (imports_edges g path name) \<le> 1"
proof -
  from assms have inv: "graph_inv g"
  proof (induction rule: reachable.induct)
    case start
    then show ?case .
  next
    case (call s file_node imps r s1)
    then show ?case by (auto simp: build_graph_run_all dest: run_all_inv)
  qed
  then have "distinct (keys File g)" "distinct (keys Module g)"
    by (simp_all add: graph_inv_def)
  then have "length (match_nodes File path g) \<le> 1" "length (match_nodes Module name g) \<le> 1"
    by (simp_all only: match_nodes_unique)
  with inv imports_edges_unique [OF inv, of path name] show ?thesis by blast
qed

text \<open>
  The store after \<open>a.py\<close> with \<open>{"os", "json"}\<close>, the same call again, and \<open>b.js\<close> with
  \<open>{"os"}\<close>: one node for \<open>os\<close>, one relationship from \<open>a.py\<close> to it.
\<close>

theorem reachable_graph_inv_witness:
  "graph_inv empty_graph
   \<and> reachable empty_graph
       \<lparr>constraints = [File, Module],
        nodes = [(File, str ''a.py''), (Module, str ''json''), (Module, str ''os''),
                 (File, str ''b.js'')],
        rels = [(0, 1), (0, 2), (3, 2)]\<rparr>
   \<and> graph_inv
       \<lparr>constraints = [File, Module],
        nodes = [(File, str ''a.py''), (Module, str ''json''), (Module, str ''os''),
                 (File, str ''b.js'')],
        rels = [(0, 1), (0, 2), (3, 2)]\<rparr>
   \<and> match_nodes Module (str ''os'')
       \<lparr>constraints = [File, Module],
        nodes = [(File, str ''a.py''), (Module, str ''json''), (Module, str ''os''),
                 (File, str ''b.js'')],
        rels = [(0, 1), (0, 2), (3, 2)]\<rparr> = [2]
   \<and> imports_edges
       \<lparr>constraints = [File, Module],
        nodes = [(File, str ''a.py''), (Module, str ''json''), (Module, str ''os''),
                 (File, str ''b.js'')],
        rels = [(0, 1), (0, 2), (3, 2)]\<rparr> (str ''a.py'') (str ''os'') = [(0, 2)]"
proof -
  let ?s0 = "\<lparr>db = empty_graph, faults = [], log = []\<rparr>"
  let ?g1 = "\<lparr>constraints = [File, Module],
        nodes = [(File, str ''a.py''), (Module, str ''json''), (Module, str ''os'')],
        rels = [(0, 1), (0, 2)]\<rparr>"
  let ?g2 = "\<lparr>constraints = [File, Module],
        nodes = [(File, str ''a.py''), (Module, str ''json''), (Module, str ''os''),
                 (File, str ''b.js'')],
        rels = [(0, 1), (0, 2), (3, 2)]\<rparr>"
  let ?s1 = "\<lparr>db = ?g1, faults = [], log = []\<rparr>"
  let ?s2 = "\<lparr>db = ?g1, faults = [], log = batch (str ''a.py'') {str ''os'', str ''json''}\<rparr>"
  let ?s3 = "\<lparr>db = ?g2, faults = [], log = batch (str ''b.js'') {str ''os''}\<rparr>"
  have inv0: "graph_inv empty_graph"
    by (simp add: graph_inv_def empty_graph_def keys_def)
  have "reachable empty_graph (db ?s0)" by (simp add: reachable.start)
  moreover have "build_graph ?s0 (str ''a.py'') {str ''os'', str ''json''}
      = (None, \<lparr>db = ?g1, faults = [], log = batch (str ''a.py'') {str ''os'', str ''json''}\<rparr>)"
    by (simp add: graph_eval batch_def)
  ultimately have "reachable empty_graph
      (db \<lparr>db = ?g1, faults = [], log = batch (str ''a.py'') {str ''os'', str ''json''}\<rparr>)"
    by (rule reachable.call)
  then have "reachable empty_graph (db ?s1)" by simp
  moreover have "build_graph ?s1 (str ''a.py'') {str ''os'', str ''json''} = (None, ?s2)"
    by (simp add: graph_eval batch_def)
  ultimately have "reachable empty_graph (db ?s2)" by (rule reachable.call)
  then have "reachable empty_graph (db ?s1)" by simp
  moreover have "build_graph ?s1 (str ''b.js'') {str ''os''} = (None, ?s3)"
    by (simp add: graph_eval batch_def)
  ultimately have "reachable empty_graph (db ?s3)" by (rule reachable.call)
  then have r: "reachable empty_graph ?g2" by simp
  have nodes: "match_nodes Module (str ''os'') ?g2 = [2]"
    by (simp add: match_nodes_def)
  have edges: "imports_edges ?g2 (str ''a.py'') (str ''os'') = [(0, 2)]"
    by (simp add: imports_edges_def match_nodes_def)
  from reachable_graph_inv [OF r inv0, of "str ''a.py''" "str ''os''"] r inv0 nodes edges
  show ?thesis by blast
qed




text \<open>
  C7 (order of the writes).  The statements a call of \<open>build_graph\<close> issues are the two
  constraints, the merge of the file, and one merge per module in strictly increasing
  lexicographic order of the module names, each module once; a call that raises has
  issued a prefix of this list.  The list depends on the file and the module set only,
  so two calls with the same input issue the same statements.
\<close>

theorem build_graph_statement_order:
  assumes "finite imports" and "build_graph s file_node imports = (r, s')"
  shows "sorted_wrt (<) (sorted_list_of_set imports)
         \<and> set (sorted_list_of_set imports) = imports
         \<and> (\<exists>k. log s' = log s @ take k
               (CreateConstraint File # CreateConstraint Module # MergeFile file_node
                # map (\<lambda>name. MergeImport name file_node) (sorted_list_of_set imports)))
         \<and> (r = None \<longrightarrow> log s' = log s @
               CreateConstraint File # CreateConstraint Module # MergeFile file_node
                # map (\<lambda>name. MergeImport name file_node) (sorted_list_of_set imports))
         \<and> (r = None \<and> build_graph t file_node imports = (None, t') \<longrightarrow>
               drop (length (log t)) (log t') = drop (length (log s)) (log s'))"
proof -
  from assms(2) have "run_all s (batch file_node imports) = (r, s')"
    by (simp add: build_graph_run_all)
  from run_all_log [OF this] obtain k where
    "log s' = log s @ take k (batch file_node imports)"
    "r = None \<longrightarrow> k = length (batch file_node imports)"
    by blast
  then have "\<exists>k. log s' = log s @ take k (batch file_node imports)"
    and "r = None \<longrightarrow> log s' = log s @ batch file_node imports"
    by auto
  moreover have "log t' = log t @ batch file_node imports"
    if "build_graph t file_node imports = (None, t')"
    using that run_all_log [of t "batch file_node imports" None t']
    by (auto simp: build_graph_run_all)
  ultimately show ?thesis
    using assms(1) by (auto simp: batch_def)
qed

theorem build_graph_statement_order_witness:
  "finite {str ''os'', str ''json'', str ''ast''}
   \<and> build_graph \<lparr>db = empty_graph, faults = [], log = []\<rparr> (str ''a.py'')
        {str ''os'', str ''json'', str ''ast''}
      = (None,
         \<lparr>db = \<lparr>constraints = [File, Module],
                 nodes = [(File, str ''a.py''), (Module, str ''ast''), (Module, str ''json''),
                          (Module, str ''os'')],
                 rels = [(0, 1), (0, 2), (0, 3)]\<rparr>,
          faults = [],
          log = [CreateConstraint File, CreateConstraint Module, MergeFile (str ''a.py''),
                 MergeImport (str ''ast'') (str ''a.py''),
                 MergeImport (str ''json'') (str ''a.py''),
                 MergeImport (str ''os'') (str ''a.py'')]\<rparr>)
   \<and> sorted_list_of_set {str ''os'', str ''json'', str ''ast''}
      = [str ''ast'', str ''json'', str ''os'']"
proof -
  let ?s = "\<lparr>db = empty_graph, faults = [], log = []\<rparr>"
  let ?imports = "{str ''os'', str ''json'', str ''ast''}"
  let ?s' = "\<lparr>db = \<lparr>constraints = [File, Module],
                 nodes = [(File, str ''a.py''), (Module, str ''ast''), (Module, str ''json''),
                          (Module, str ''os'')],
                 rels = [(0, 1), (0, 2), (0, 3)]\<rparr>,
          faults = [],
          log = [CreateConstraint File, CreateConstraint Module, MergeFile (str ''a.py''),
                 MergeImport (str ''ast'') (str ''a.py''),
                 MergeImport (str ''json'') (str ''a.py''),
                 MergeImport (str ''os'') (str ''a.py'')]\<rparr>"
  have fin: "finite ?imports" by simp
  have run: "build_graph ?s (str ''a.py'') ?imports = (None, ?s')"
    by (simp add: graph_eval)
  have names: "sorted_list_of_set ?imports = [str ''ast'', str ''json'', str ''os'']"
    by simp
  from build_graph_statement_order [OF fin run] fin run names show ?thesis
    by blast
qed

text \<open>
  C8 (unsupported suffix).  For a path whose suffix is none of \<open>.py\<close>, \<open>.js\<close>, \<open>.ts\<close>
  the dispatcher returns the empty set and raises nothing, whatever reading the file and
  parsing it would do: neither is asked for.
\<close>

theorem unsupported_suffix_empty:
  assumes "path_suffix file_path \<notin> {str ''.py'', str ''.js'', str ''.ts''}"
  shows "extract_imports read_text parse file_path = Inr {}"
  using assms by (simp add: extract_imports_def)

theorem unsupported_suffix_empty_witness:
  "path_suffix (str ''docs/README.md'') = str ''.md''
   \<and> path_suffix (str ''docs/README.md'') \<notin> {str ''.py'', str ''.js'', str ''.ts''}
   \<and> extract_imports (\<lambda>p. Inl OSError) (\<lambda>src. Inl SyntaxError) (str ''docs/README.md'') = Inr {}"
proof -
  have md: "path_suffix (str ''docs/README.md'') = str ''.md''"
    by (simp add: path_suffix_def path_name_def)
  then have no: "path_suffix (str ''docs/README.md'') \<notin> {str ''.py'', str ''.js'', str ''.ts''}"
    by simp
  from unsupported_suffix_empty [OF no] md no show ?thesis by blast
qed

text \<open>
  C9 (false positives of the scan).  A \<open>require('x')\<close> that stands in a line comment, or
  inside a string literal, is recorded like any other: the extracted set is \<open>{"x"}\<close>.
\<close>

theorem js_scan_false_positive:
  "extract_js_imports (\<lambda>p. Inr (str ''// require('x')'')) js_path = Inr {str ''x''}
   \<and> extract_js_imports (\<lambda>p. Inr (str ''var s = \"require('x')\";'')) js_path
       = Inr {str ''x''}"
  by (simp add: js_eval)

text \<open>
  C10 (imports at any depth).  For a file that can be read and parsed, the first dotted
  segment of every alias of an \<open>Import\<close> node, and of the module of every \<open>ImportFrom\<close>
  node that has one, is in the extracted set wherever the node lies in the tree.
\<close>

theorem nested_imports_recorded:
  assumes "read_text py_path = Inr src" and "parse src = Inr tree"
  shows "\<exists>mods. extract_python_imports read_text parse py_path = Inr mods
           \<and> (\<forall>names a. occurs_in tree (Import names) \<and> a \<in> set names
                 \<longrightarrow> first_dotted (alias_name a) \<in> mods)
           \<and> (\<forall>m names lvl. occurs_in tree (ImportFrom (Some m) names lvl) \<and> m \<noteq> []
                 \<longrightarrow> first_dotted m \<in> mods)"
proof -
  from assms have "extract_python_imports read_text parse py_path =
     Inr ({first_dotted (alias_name a) | a names. occurs_in tree (Import names) \<and> a \<in> set names}
        \<union> {first_dotted m | m names lvl.
             occurs_in tree (ImportFrom (Some m) names lvl) \<and> m \<noteq> []})"
    by (rule extract_python_imports_eq)
  then show ?thesis by blast
qed

text \<open>
  A module whose only imports are \<open>import json\<close> in the body of a function and
  \<open>from yaml.parser import load\<close> in a \<open>try\<close> block.
\<close>

theorem nested_imports_recorded_witness:
  "occurs_in
     (Node ''Module''
        [Node ''FunctionDef''
           [Node ''arguments'' [], Import [Alias (str ''json'') None]],
         Node ''Try''
           [ImportFrom (Some (str ''yaml.parser'')) [Alias (str ''load'') None] 0,
            Node ''ExceptHandler'' [Node ''Pass'' []]]])
     (Import [Alias (str ''json'') None])
   \<and> occurs_in
     (Node ''Module''
        [Node ''FunctionDef''
           [Node ''arguments'' [], Import [Alias (str ''json'') None]],
         Node ''Try''
           [ImportFrom (Some (str ''yaml.parser'')) [Alias (str ''load'') None] 0,
            Node ''ExceptHandler'' [Node ''Pass'' []]]])
     (ImportFrom (Some (str ''yaml.parser'')) [Alias (str ''load'') None] 0)
   \<and> extract_python_imports (\<lambda>p. Inr (str ''...''))
       (\<lambda>src. Inr (Node ''Module''
        [Node ''FunctionDef''
           [Node ''arguments'' [], Import [Alias (str ''json'') None]],
         Node ''Try''
           [ImportFrom (Some (str ''yaml.parser'')) [Alias (str ''load'') None] 0,
            Node ''ExceptHandler'' [Node ''Pass'' []]]]))
       (str ''a.py'') = Inr {str ''json'', str ''yaml''}"
proof -
  let ?imp = "Import [Alias (str ''json'') None]"
  let ?from = "ImportFrom (Some (str ''yaml.parser'')) [Alias (str ''load'') None] 0"
  let ?def = "Node ''FunctionDef'' [Node ''arguments'' [], ?imp]"
  let ?guarded = "Node ''Try'' [?from, Node ''ExceptHandler'' [Node ''Pass'' []]]"
  let ?tree = "Node ''Module'' [?def, ?guarded]"
  have "occurs_in ?def ?imp" by (rule occurs_in.child [OF _ occurs_in.root]) simp
  then have imp: "occurs_in ?tree ?imp" by (rule occurs_in.child [rotated]) simp
  have "occurs_in ?guarded ?from" by (rule occurs_in.child [OF _ occurs_in.root]) simp
  then have frm: "occurs_in ?tree ?from" by (rule occurs_in.child [rotated]) simp
  have run: "extract_python_imports (\<lambda>p. Inr (str ''...'')) (\<lambda>src. Inr ?tree) (str ''a.py'')
      = Inr {str ''json'', str ''yaml''}"
    by (simp add: extract_python_imports_def first_dotted_def insert_commute)
  from nested_imports_recorded
    [of "\<lambda>p. Inr (str ''...'')" "str ''a.py''" "str ''...''" "\<lambda>src. Inr ?tree" ?tree]
  obtain mods where
    "extract_python_imports (\<lambda>p. Inr (str ''...'')) (\<lambda>src. Inr ?tree) (str ''a.py'') = Inr mods"
    by auto
  with imp frm run show ?thesis by blast
qed

end
